theory Spec2Isabelle
  imports Main
begin

section \<open>Values, event identifiers and listener references\<close>

text \<open>
  Payloads, return values and thrown values of listeners. The emitter never inspects
  them; \<open>Undefined\<close> is JavaScript's \<^verbatim>\<open>undefined\<close>.
\<close>

datatype val = Undefined | Num int | Str string

text \<open>
  An event identifier is a string, a number or a symbol (\<^verbatim>\<open>EventNames<T>\<close> is
  \<^verbatim>\<open>keyof T & (string | number | symbol)\<close>). A symbol has an identity and a description.
  A number is given by the string that \<^verbatim>\<open>Number.prototype.toString\<close> yields for it, such
  as \<open>1\<close>, \<open>-7\<close>, \<open>0.5\<close>, \<open>1e+21\<close>, \<open>NaN\<close> or \<open>Infinity\<close>: the shortest decimal that
  reads back as the same double, in exponent form from \<open>10^21\<close> on. Two numbers have the
  same such string only if they are equal (\<open>+0\<close> and \<open>-0\<close>, which JavaScript compares as
  equal, both give \<open>0\<close>); a string of another shape stands for no number.
\<close>

datatype event = EStr string | ENum string | ESym nat string

text \<open>
  \<^verbatim>\<open>String(event)\<close>: a string is itself, a number is its string form, a symbol is
  \<^verbatim>\<open>Symbol(description)\<close>.
\<close>

fun String_js :: "event \<Rightarrow> string" where
  "String_js (EStr s) = s"
| "String_js (ENum s) = s"
| "String_js (ESym _ d) = ''Symbol('' @ d @ '')''"

text \<open>
  A listener is a function reference; the emitter compares listeners by identity.
  \<open>Fn i\<close> is the \<open>i\<close>-th function of the calling program. \<open>OnceWrapper c l\<close> is the arrow
  function that the \<open>c\<close>-th object allocation, a call of \<^verbatim>\<open>once\<close>, created around \<open>l\<close>.
\<close>

datatype listener = Fn nat | OnceWrapper nat listener

text \<open>
  The function returned by \<^verbatim>\<open>on\<close>,
  \<^verbatim>\<open>() => { set.delete(listener); if (set.size === 0) this.listeners.delete(key); }\<close>,
  with the three variables it captures: the Set object (its address), the key and the
  listener.
\<close>

datatype unsub = Unsub nat string listener

section \<open>The emitter\<close>

text \<open>
  \<open>listeners\<close> is the private field \<^verbatim>\<open>Map<string, Set<...>>\<close>: it holds references to Set
  objects. \<open>sets\<close> is the content of every Set object, in insertion order, by address;
  \<open>fresh\<close> is the next unused object identity; \<open>scopes\<close> holds, for each call of
  \<^verbatim>\<open>once\<close>, the binding \<^verbatim>\<open>unsubscribe\<close> that its wrapper reads.
\<close>

record emitter =
  listeners :: "string \<rightharpoonup> nat"
  sets :: "nat \<Rightarrow> listener list"
  fresh :: nat
  scopes :: "nat \<rightharpoonup> unsub"

definition new_emitter :: emitter where
  "new_emitter = \<lparr>listeners = Map.empty, sets = (\<lambda>_. []), fresh = 0, scopes = Map.empty\<rparr>"

text \<open>\<^verbatim>\<open>Set.prototype.add\<close> and \<^verbatim>\<open>Set.prototype.delete\<close> on the insertion-ordered content.\<close>

definition set_add :: "'a \<Rightarrow> 'a list \<Rightarrow> 'a list" where
  "set_add x xs = (if x \<in> set xs then xs else xs @ [x])"

definition set_delete :: "'a \<Rightarrow> 'a list \<Rightarrow> 'a list" where
  "set_delete x xs = remove1 x xs"

definition off :: "event \<Rightarrow> listener \<Rightarrow> emitter \<Rightarrow> bool \<times> emitter" where
  "off event listener s =
    (let key = String_js event in
     case listeners s key of
       None \<Rightarrow> (False, s)
     | Some a \<Rightarrow>
         let removed = (listener \<in> set (sets s a));
             s1 = s\<lparr>sets := (sets s)(a := set_delete listener (sets s a))\<rparr>;
             s2 = (if length (sets s1 a) = 0
                   then s1\<lparr>listeners := (listeners s1)(key := None)\<rparr> else s1)
         in (removed, s2))"

text \<open>Calling an unsubscribe function: it works on the Set object it captured.\<close>

fun unsubscribe :: "unsub \<Rightarrow> emitter \<Rightarrow> emitter" where
  "unsubscribe (Unsub a key listener) s =
    (let s1 = s\<lparr>sets := (sets s)(a := set_delete listener (sets s a))\<rparr>
     in if length (sets s1 a) = 0
        then s1\<lparr>listeners := (listeners s1)(key := None)\<rparr> else s1)"

definition on :: "event \<Rightarrow> listener \<Rightarrow> emitter \<Rightarrow> unsub \<times> emitter" where
  "on event listener s =
    (let key = String_js event;
         s1 = (if listeners s key = None
               then s\<lparr>listeners := (listeners s)(key \<mapsto> fresh s),
                      sets := (sets s)(fresh s := []),
                      fresh := Suc (fresh s)\<rparr>
               else s);
         a = the (listeners s1 key);
         s2 = s1\<lparr>sets := (sets s1)(a := set_add listener (sets s1 a))\<rparr>
     in (Unsub a key listener, s2))"

definition once :: "event \<Rightarrow> listener \<Rightarrow> emitter \<Rightarrow> unsub \<times> emitter" where
  "once event listener s =
    (let c = fresh s;
         (u, s1) = on event (OnceWrapper c listener) (s\<lparr>fresh := Suc c\<rparr>)
     in (u, s1\<lparr>scopes := (scopes s1)(c \<mapsto> u)\<rparr>))"

definition clear :: "event option \<Rightarrow> emitter \<Rightarrow> emitter" where
  "clear event s =
    (case event of
       None \<Rightarrow> s\<lparr>listeners := Map.empty\<rparr>
     | Some e \<Rightarrow> s\<lparr>listeners := (listeners s)(String_js e := None)\<rparr>)"

definition listenerCount :: "event \<Rightarrow> emitter \<Rightarrow> nat" where
  "listenerCount event s =
    (case listeners s (String_js event) of None \<Rightarrow> 0 | Some a \<Rightarrow> length (sets s a))"

definition hasListeners :: "event \<Rightarrow> emitter \<Rightarrow> bool" where
  "hasListeners event s = (listenerCount event s > 0)"

section \<open>Listeners that call back into the emitter\<close>

text \<open>
  What a promise eventually does, and how one call of a listener completes: it returns a
  plain value, throws, or returns a promise.
\<close>

datatype 'a settlement = Fulfilled 'a | Rejected val | Pending

datatype completion = Returns val | Throws val | ReturnsPromise "val settlement"

text \<open>
  The code of the calling program, as far as the emitter is concerned: the calls it makes
  on the emitter, in order. \<open>On e i\<close> is \<^verbatim>\<open>on(e, f\<^sub>i)\<close> and keeps the returned function;
  \<open>Unsubscribe j\<close> calls the \<open>j\<close>-th function so returned; \<open>Try c\<close> is \<open>c\<close> inside
  \<^verbatim>\<open>try { } catch { }\<close>. The body of the function \<open>f\<^sub>i\<close>, which may depend on the
  payload, is given by a table \<open>b :: nat \<Rightarrow> val \<Rightarrow> cmd list\<close>.
\<close>

datatype cmd =
    On event nat
  | Once event nat
  | Off event nat
  | Clear "event option"
  | Emit event "val list"
  | EmitAsync event "val list"
  | Unsubscribe nat
  | Try cmd
  | Throw val
  | Return val
  | ReturnPromise "val settlement"

datatype flow = Continue | Finish completion

text \<open>
  What is recorded of a run: the snapshot each emission takes (emission number, key,
  listeners) and every call an emission makes of a listener of its snapshot.
\<close>

datatype entry = Snapshot nat string "listener list" | Invoke nat listener val

text \<open>
  The emitter together with its caller's side: the unsubscribe functions returned so far,
  the \<^verbatim>\<open>emitAsync\<close> jobs waiting in the microtask queue (emission number, snapshot,
  payload), the number of emissions started and the record of the run.
\<close>

record world =
  bus :: emitter
  handles :: "unsub list"
  pending :: "(nat \<times> listener list \<times> val) list"
  emitted :: nat
  trace :: "entry list"

definition new_world :: world where
  "new_world = \<lparr>bus = new_emitter, handles = [], pending = [], emitted = 0, trace = []\<rparr>"

text \<open>\<^verbatim>\<open>payload[0]\<close> of the rest parameter: \<^verbatim>\<open>undefined\<close> when the payload was omitted.\<close>

fun first_arg :: "val list \<Rightarrow> val" where
  "first_arg [] = Undefined"
| "first_arg (x # _) = x"

text \<open>
  The synchronous part of \<^verbatim>\<open>emitAsync\<close>: look up and snapshot. Without a listener
  set the function returns \<^verbatim>\<open>[]\<close> (None here); otherwise it queues one job per listener
  of the snapshot, returned here as (emission number, snapshot, payload).
\<close>

definition emitAsync :: "event \<Rightarrow> val list \<Rightarrow> world \<Rightarrow> (nat \<times> listener list \<times> val) option \<times> world" where
  "emitAsync event payload w =
    (let key = String_js event in
     case listeners (bus w) key of
       None \<Rightarrow> (None, w)
     | Some a \<Rightarrow>
         let data = first_arg payload;
             ls = sets (bus w) a
         in (Some (emitted w, ls, data),
             w\<lparr>emitted := Suc (emitted w),
               trace := trace w @ [Snapshot (emitted w) key ls]\<rparr>))"

text \<open>
  Running code needs fuel: a listener may emit the event it listens to, without end.
  One unit of fuel is one level of call depth. \<open>exec\<close> runs one call of the program,
  \<open>run\<close> a function body, \<open>call\<close> a listener, \<open>forEach\<close> the loop
  \<^verbatim>\<open>listeners.forEach((l) => l(data))\<close> of \<open>emit\<close>. None is: out of fuel.
\<close>

function (sequential) exec :: "(nat \<Rightarrow> val \<Rightarrow> cmd list) \<Rightarrow> nat \<Rightarrow> cmd \<Rightarrow> world \<Rightarrow> (flow \<times> world) option"
and run :: "(nat \<Rightarrow> val \<Rightarrow> cmd list) \<Rightarrow> nat \<Rightarrow> cmd list \<Rightarrow> world \<Rightarrow> (completion \<times> world) option"
and call :: "(nat \<Rightarrow> val \<Rightarrow> cmd list) \<Rightarrow> nat \<Rightarrow> listener \<Rightarrow> val \<Rightarrow> world \<Rightarrow> (completion \<times> world) option"
and emit :: "(nat \<Rightarrow> val \<Rightarrow> cmd list) \<Rightarrow> nat \<Rightarrow> event \<Rightarrow> val list \<Rightarrow> world \<Rightarrow> (completion \<times> world) option"
and forEach :: "(nat \<Rightarrow> val \<Rightarrow> cmd list) \<Rightarrow> nat \<Rightarrow> nat \<Rightarrow> listener list \<Rightarrow> val \<Rightarrow> world \<Rightarrow> (completion \<times> world) option"
where
  "exec b n (On e i) w =
     (let (u, s) = on e (Fn i) (bus w) in Some (Continue, w\<lparr>bus := s, handles := handles w @ [u]\<rparr>))"
| "exec b n (Once e i) w =
     (let (u, s) = once e (Fn i) (bus w) in Some (Continue, w\<lparr>bus := s, handles := handles w @ [u]\<rparr>))"
| "exec b n (Off e i) w = Some (Continue, w\<lparr>bus := snd (off e (Fn i) (bus w))\<rparr>)"
| "exec b n (Clear e) w = Some (Continue, w\<lparr>bus := clear e (bus w)\<rparr>)"
| "exec b n (Emit e payload) w =
     (case emit b n e payload w of
        None \<Rightarrow> None
      | Some (Throws x, w') \<Rightarrow> Some (Finish (Throws x), w')
      | Some (_, w') \<Rightarrow> Some (Continue, w'))"
| "exec b n (EmitAsync e payload) w =
     (case emitAsync e payload w of
        (None, w') \<Rightarrow> Some (Continue, w')
      | (Some job, w') \<Rightarrow> Some (Continue, w'\<lparr>pending := pending w' @ [job]\<rparr>))"
| "exec b n (Unsubscribe j) w =
     (if j < length (handles w)
      then Some (Continue, w\<lparr>bus := unsubscribe (handles w ! j) (bus w)\<rparr>)
      else Some (Continue, w))"
| "exec b n (Try c) w =
     (case exec b n c w of
        None \<Rightarrow> None
      | Some (Finish (Throws x), w') \<Rightarrow> Some (Continue, w')
      | Some (f, w') \<Rightarrow> Some (f, w'))"
| "exec b n (Throw x) w = Some (Finish (Throws x), w)"
| "exec b n (Return v) w = Some (Finish (Returns v), w)"
| "exec b n (ReturnPromise p) w = Some (Finish (ReturnsPromise p), w)"
| "run b n [] w = Some (Returns Undefined, w)"
| "run b n (c # cs) w =
     (case exec b n c w of
        None \<Rightarrow> None
      | Some (Finish r, w') \<Rightarrow> Some (r, w')
      | Some (Continue, w') \<Rightarrow> run b n cs w')"
| "call b 0 l data w = None"
| "call b (Suc n) (Fn i) data w = run b n (b i data) w"
| "call b (Suc n) (OnceWrapper c listener) payload w =
     (case call b n listener payload w of
        None \<Rightarrow> None
      | Some (r, w') \<Rightarrow>
          Some (case r of Throws x \<Rightarrow> Throws x | _ \<Rightarrow> Returns Undefined,
                case scopes (bus w') c of
                  None \<Rightarrow> w'
                | Some u \<Rightarrow> w'\<lparr>bus := unsubscribe u (bus w')\<rparr>))"
| "emit b n event payload w =
     (let key = String_js event in
      case listeners (bus w) key of
        None \<Rightarrow> Some (Returns Undefined, w)
      | Some a \<Rightarrow>
          let data = first_arg payload;
              ls = sets (bus w) a
          in forEach b n (emitted w) ls data
               (w\<lparr>emitted := Suc (emitted w),
                  trace := trace w @ [Snapshot (emitted w) key ls]\<rparr>))"
| "forEach b n eid [] data w = Some (Returns Undefined, w)"
| "forEach b n eid (l # ls) data w =
     (case call b n l data (w\<lparr>trace := trace w @ [Invoke eid l data]\<rparr>) of
        None \<Rightarrow> None
      | Some (Throws x, w') \<Rightarrow> Some (Throws x, w')
      | Some (_, w') \<Rightarrow> forEach b n eid ls data w')"
  by pat_completeness auto

termination
  apply (relation "inv_image (less_than <*lex*> less_than <*lex*> less_than)
     (\<lambda>x. case x of
        Inl (Inl (b, n, c, w)) \<Rightarrow> (n, 3::nat, size c)
      | Inl (Inr (b, n, cs, w)) \<Rightarrow> (n, 4, length cs)
      | Inr (Inl (b, n, l, d, w)) \<Rightarrow> (n, 0, 0)
      | Inr (Inr (Inl (b, n, e, p, w))) \<Rightarrow> (n, 2, 0)
      | Inr (Inr (Inr (b, n, eid, ls, d, w))) \<Rightarrow> (n, 1, length ls))")
  apply auto
  done

text \<open>
  The jobs of one \<^verbatim>\<open>emitAsync\<close>, \<^verbatim>\<open>Promise.resolve().then(() => l(data))\<close> for each
  listener of the snapshot: they sit next to each other in the microtask queue, so they
  run one after the other, and each job catches what its listener throws.
\<close>

fun run_jobs :: "(nat \<Rightarrow> val \<Rightarrow> cmd list) \<Rightarrow> nat \<Rightarrow> nat \<Rightarrow> listener list \<Rightarrow> val \<Rightarrow> world \<Rightarrow> (completion list \<times> world) option" where
  "run_jobs b n eid [] data w = Some ([], w)"
| "run_jobs b n eid (l # ls) data w =
     (case call b n l data (w\<lparr>trace := trace w @ [Invoke eid l data]\<rparr>) of
        None \<Rightarrow> None
      | Some (r, w') \<Rightarrow>
          (case run_jobs b n eid ls data w' of
             None \<Rightarrow> None
           | Some (rs, w'') \<Rightarrow> Some (r # rs, w'')))"

text \<open>\<^verbatim>\<open>EmitOutcome\<close>: \<^verbatim>\<open>{ ok: true, value }\<close> or \<^verbatim>\<open>{ ok: false, error }\<close>.\<close>

datatype outcome = Ok val | Failed val

text \<open>
  The promise \<^verbatim>\<open>Promise.resolve().then(() => l(data)).then(v => ok, e => failed)\<close>, from
  what the call \<^verbatim>\<open>l(data)\<close> did: a returned promise is adopted.
\<close>

fun listener_promise :: "completion \<Rightarrow> outcome settlement" where
  "listener_promise (Returns v) = Fulfilled (Ok v)"
| "listener_promise (Throws e) = Fulfilled (Failed e)"
| "listener_promise (ReturnsPromise (Fulfilled v)) = Fulfilled (Ok v)"
| "listener_promise (ReturnsPromise (Rejected e)) = Fulfilled (Failed e)"
| "listener_promise (ReturnsPromise Pending) = Pending"

text \<open>
  \<^verbatim>\<open>Promise.all\<close> as ECMAScript defines it: a list of values with one slot per promise and
  a count of the promises not yet fulfilled. \<open>order\<close> lists the promises in the order in
  which they settle. A fulfilment stores its value in the slot of its index and, when it
  was the last one, fulfils the result with the values; a rejection rejects the result.
\<close>

fun Promise_all_loop :: "'a settlement list \<Rightarrow> nat list \<Rightarrow> 'a option list \<Rightarrow> nat \<Rightarrow> 'a list settlement" where
  "Promise_all_loop ps [] values remaining = Pending"
| "Promise_all_loop ps (i # order) values remaining =
     (if i < length ps then
        (case ps ! i of
           Fulfilled x \<Rightarrow>
             (let values' = values[i := Some x];
                  remaining' = remaining - 1
              in if remaining' = 0 then Fulfilled (map the values')
                 else Promise_all_loop ps order values' remaining')
         | Rejected e \<Rightarrow> Rejected e
         | Pending \<Rightarrow> Promise_all_loop ps order values remaining)
      else Promise_all_loop ps order values remaining)"

definition Promise_all :: "'a settlement list \<Rightarrow> nat list \<Rightarrow> 'a list settlement" where
  "Promise_all ps order =
    (if ps = [] then Fulfilled []
     else Promise_all_loop ps order (replicate (length ps) None) (length ps))"

text \<open>
  \<^verbatim>\<open>await emitAsync(event, payload)\<close> with nothing else waiting in the microtask queue:
  the jobs run right after the synchronous part, and \<^verbatim>\<open>Promise.all\<close> collects them.
\<close>

definition await_emitAsync :: "(nat \<Rightarrow> val \<Rightarrow> cmd list) \<Rightarrow> nat \<Rightarrow> nat list \<Rightarrow> event \<Rightarrow> val list \<Rightarrow> world \<Rightarrow> (outcome list settlement \<times> world) option" where
  "await_emitAsync b n order event payload w =
    (case emitAsync event payload w of
       (None, w0) \<Rightarrow> Some (Fulfilled [], w0)
     | (Some (eid, ls, data), w0) \<Rightarrow>
         (case run_jobs b n eid ls data w0 of
            None \<Rightarrow> None
          | Some (rs, w') \<Rightarrow> Some (Promise_all (map listener_promise rs) order, w')))"

text \<open>
  A program at top level: calls on the emitter, whose exceptions the program may catch,
  and microtask checkpoints, where the jobs of the oldest waiting \<^verbatim>\<open>emitAsync\<close> run.
  What an \<^verbatim>\<open>async\<close> listener does after its first \<^verbatim>\<open>await\<close> runs later, as calls at
  top level.
\<close>

datatype step = Call cmd | Microtask

fun steps :: "(nat \<Rightarrow> val \<Rightarrow> cmd list) \<Rightarrow> nat \<Rightarrow> step list \<Rightarrow> world \<Rightarrow> world option" where
  "steps b n [] w = Some w"
| "steps b n (Call c # ss) w =
     (case exec b n c w of None \<Rightarrow> None | Some (_, w') \<Rightarrow> steps b n ss w')"
| "steps b n (Microtask # ss) w =
     (case pending w of
        [] \<Rightarrow> steps b n ss w
      | (eid, ls, data) # q \<Rightarrow>
          (case run_jobs b n eid ls data (w\<lparr>pending := q\<rparr>) of
             None \<Rightarrow> None
           | Some (_, w') \<Rightarrow> steps b n ss w'))"

section \<open>Observations on a run\<close>

text \<open>The listener set of an event, in insertion order: what an emission would snapshot.\<close>

definition registered :: "event \<Rightarrow> emitter \<Rightarrow> listener list" where
  "registered event s =
    (case listeners s (String_js event) of None \<Rightarrow> [] | Some a \<Rightarrow> sets s a)"

fun entry_id :: "entry \<Rightarrow> nat" where
  "entry_id (Snapshot i _ _) = i"
| "entry_id (Invoke i _ _) = i"

text \<open>The calls that emission \<open>eid\<close> itself made, in order: listener and payload.\<close>

fun direct :: "nat \<Rightarrow> entry list \<Rightarrow> (listener \<times> val) list" where
  "direct eid [] = []"
| "direct eid (Invoke i l v # t) = (if i = eid then (l, v) # direct eid t else direct eid t)"
| "direct eid (Snapshot _ _ _ # t) = direct eid t"

text \<open>What a run from \<open>w\<close> to \<open>w'\<close> added to the record.\<close>

definition added :: "world \<Rightarrow> world \<Rightarrow> entry list" where
  "added w w' = drop (length (trace w)) (trace w')"

definition advances :: "nat option \<Rightarrow> world \<Rightarrow> world \<Rightarrow> bool" where
  "advances own w w' \<longleftrightarrow>
     emitted w \<le> emitted w' \<and>
     (\<exists>new. trace w' = trace w @ new \<and>
        (\<forall>x \<in> set new. emitted w \<le> entry_id x \<or> Some (entry_id x) = own))"

section \<open>Well-formed emitters\<close>

text \<open>
  An unsubscribe function is sound for an emitter when the Set it captured was allocated
  and is registered, if at all, under the key that the function captured.
\<close>

fun closure_ok :: "emitter \<Rightarrow> unsub \<Rightarrow> bool" where
  "closure_ok s (Unsub a key l) \<longleftrightarrow>
     a < fresh s \<and> (\<forall>k. listeners s k = Some a \<longrightarrow> k = key)"

text \<open>
  What every emitter built by its own methods satisfies: a registered Set is allocated and
  not empty; no Set is registered under two keys; the unsubscribe function of every
  \<^verbatim>\<open>once\<close> scope is sound; a wrapper is a member only of the Set that its own
  unsubscribe function captured; a Set holds no listener twice.
\<close>

definition wf_emitter :: "emitter \<Rightarrow> bool" where
  "wf_emitter s \<longleftrightarrow>
     (\<forall>k a. listeners s k = Some a \<longrightarrow> a < fresh s \<and> sets s a \<noteq> []) \<and>
     (\<forall>k k' a. listeners s k = Some a \<longrightarrow> listeners s k' = Some a \<longrightarrow> k = k') \<and>
     (\<forall>c u. scopes s c = Some u \<longrightarrow> closure_ok s u) \<and>
     (\<forall>a c l. OnceWrapper c l \<in> set (sets s a) \<longrightarrow>
        c < fresh s \<and> (\<exists>k. scopes s c = Some (Unsub a k (OnceWrapper c l)))) \<and>
     (\<forall>a. distinct (sets s a))"

definition wf_world :: "world \<Rightarrow> bool" where
  "wf_world w \<longleftrightarrow>
     wf_emitter (bus w) \<and> (\<forall>u \<in> set (handles w). closure_ok (bus w) u)"

section \<open>Listeners that keep to themselves\<close>



text \<open>
  Listeners whose code makes no synchronous \<open>emit\<close> of its own always return: \<open>emits c\<close>
  says that the call \<open>c\<close> is or encloses an \<open>emit\<close>, \<open>depth l\<close> is the call depth that
  calling \<open>l\<close> needs, and \<open>fn_of l\<close> is the function that \<open>l\<close> is or wraps.
\<close>

fun emits :: "cmd \<Rightarrow> bool" where
  "emits (Emit e p) = True"
| "emits (Try c) = emits c"
| "emits _ = False"

fun depth :: "listener \<Rightarrow> nat" where
  "depth (Fn i) = 1"
| "depth (OnceWrapper c l) = Suc (depth l)"

fun fn_of :: "listener \<Rightarrow> nat" where
  "fn_of (Fn i) = i"
| "fn_of (OnceWrapper c l) = fn_of l"

definition returns :: "(nat \<Rightarrow> val \<Rightarrow> cmd list) \<Rightarrow> nat \<Rightarrow> val \<Rightarrow> listener \<Rightarrow> bool" where
  "returns b n d l \<longleftrightarrow> depth l \<le> n \<and> (\<forall>c \<in> set (b (fn_of l) d). \<not> emits c)"

section \<open>Sequences of \<open>on\<close> and \<open>off\<close> calls\<close>







section \<open>Example programs\<close>

text \<open>
  Tables of function bodies: in \<open>quiet\<close> every function does nothing; in \<open>failing_first\<close>
  the function \<open>f\<^sub>0\<close> throws; in \<open>throw_then_ok\<close> it throws and \<open>f\<^sub>1\<close> returns \<open>ok\<close>; in
  \<open>reentrant\<close> the function \<open>f\<^sub>0\<close>, called with 1, emits \<open>e\<close> again with 2.
\<close>

definition quiet :: "nat \<Rightarrow> val \<Rightarrow> cmd list" where
  "quiet i v = []"

definition failing_first :: "nat \<Rightarrow> val \<Rightarrow> cmd list" where
  "failing_first i v = (if i = 0 then [Throw (Str ''boom'')] else [])"

definition throw_then_ok :: "nat \<Rightarrow> val \<Rightarrow> cmd list" where
  "throw_then_ok i v =
     (if i = 0 then [Throw (Str ''boom'')] else if i = 1 then [Return (Str ''ok'')] else [])"

definition reentrant :: "nat \<Rightarrow> val \<Rightarrow> cmd list" where
  "reentrant i v = (if i = 0 \<and> v = Num 1 then [Emit (EStr ''e'') [Num 2]] else [])"

text \<open>
  A program that ends with no listener left, the program \<open>once(e, f0); emit(e, 1)\<close> and
  the calls \<open>on(x, f0); on(x, f1); off(x, f0)\<close>.
\<close>

definition unsubscribe_all :: "step list" where
  "unsubscribe_all =
     [Call (On (EStr ''x'') 0), Call (Once (EStr ''x'') 1), Call (Emit (EStr ''x'') [Num 5]),
      Call (EmitAsync (EStr ''x'') []), Microtask, Call (Unsubscribe 0)]"

definition once_then_emit :: "cmd list" where
  "once_then_emit = [Once (EStr ''e'') 0, Emit (EStr ''e'') [Num 1]]"


text \<open>
  The worlds after \<open>on(x, f0); on(x, f1)\<close>, after \<open>on(x, f1); on(x, f0); on(x, f2)\<close> and
  after \<open>on(x, f0); on(y, f1)\<close>.
\<close>

definition two_listeners :: world where
  "two_listeners = the (steps quiet 0 [Call (On (EStr ''x'') 0), Call (On (EStr ''x'') 1)] new_world)"

definition three_listeners :: world where
  "three_listeners =
     the (steps quiet 0
       [Call (On (EStr ''x'') 1), Call (On (EStr ''x'') 0), Call (On (EStr ''x'') 2)] new_world)"


section \<open>Well-formedness is preserved\<close>

declare unsubscribe.simps [simp del]

lemma wf_new: "wf_emitter new_emitter"
  by (simp add: wf_emitter_def new_emitter_def)

lemma closure_ok_mono:
  assumes "closure_ok s u" "fresh s \<le> fresh s'"
    and "\<And>k a. a < fresh s \<Longrightarrow> listeners s' k = Some a \<Longrightarrow> listeners s k = Some a"
  shows "closure_ok s' u"
  using assms by (cases u) auto

lemma off_eq_unsubscribe:
  "listeners s (String_js e) = Some a \<Longrightarrow> snd (off e l s) = unsubscribe (Unsub a (String_js e) l) s"
  by (simp add: off_def Let_def unsubscribe.simps)

lemma off_absent: "listeners s (String_js e) = None \<Longrightarrow> off e l s = (False, s)"
  by (simp add: off_def)

lemma closure_ok_registered:
  "wf_emitter s \<Longrightarrow> listeners s k = Some a \<Longrightarrow> closure_ok s (Unsub a k l)"
  by (auto simp: wf_emitter_def)

lemma unsubscribe_fields [simp]:
  "fresh (unsubscribe u s) = fresh s" "scopes (unsubscribe u s) = scopes s"
  by (cases u; simp add: Let_def unsubscribe.simps)+

lemma unsubscribe_listeners:
  "listeners (unsubscribe u s) k = Some a \<Longrightarrow> listeners s k = Some a"
  by (cases u) (auto simp: Let_def unsubscribe.simps split: if_splits)

lemma unsubscribe_sets_subset: "x \<in> set (sets (unsubscribe u s) a) \<Longrightarrow> x \<in> set (sets s a)"
  by (cases u) (auto simp: Let_def unsubscribe.simps set_delete_def dest: set_mp[OF set_remove1_subset] split: if_splits)

lemma unsubscribe_closure_ok: "closure_ok s u' \<Longrightarrow> closure_ok (unsubscribe u s) u'"
  by (erule closure_ok_mono) (auto dest: unsubscribe_listeners)

lemma unsubscribe_wf:
  assumes wf: "wf_emitter s" and ok: "closure_ok s u"
  shows "wf_emitter (unsubscribe u s)"
proof -
  obtain a key l where u: "u = Unsub a key l" by (cases u)
  let ?s = "unsubscribe u s"
  have p1: "\<forall>k a'. listeners ?s k = Some a' \<longrightarrow> a' < fresh ?s \<and> sets ?s a' \<noteq> []"
    using wf ok unfolding u wf_emitter_def by (auto simp: Let_def unsubscribe.simps split: if_splits)
  have p2: "\<forall>k k' a'. listeners ?s k = Some a' \<longrightarrow> listeners ?s k' = Some a' \<longrightarrow> k = k'"
    using wf unfolding wf_emitter_def by (meson unsubscribe_listeners)
  have p3: "\<forall>c u'. scopes ?s c = Some u' \<longrightarrow> closure_ok ?s u'"
    using wf unfolding wf_emitter_def by (auto intro: unsubscribe_closure_ok)
  have p4: "\<forall>a' c l'. OnceWrapper c l' \<in> set (sets ?s a') \<longrightarrow>
        c < fresh ?s \<and> (\<exists>k. scopes ?s c = Some (Unsub a' k (OnceWrapper c l')))"
    using wf unfolding wf_emitter_def by (auto dest!: unsubscribe_sets_subset)
  have p5: "\<forall>a'. distinct (sets ?s a')"
    using wf unfolding u wf_emitter_def by (auto simp: Let_def unsubscribe.simps set_delete_def)
  show ?thesis unfolding wf_emitter_def using p1 p2 p3 p4 p5 by blast
qed

lemma off_wf: "wf_emitter s \<Longrightarrow> wf_emitter (snd (off e l s))"
  by (cases "listeners s (String_js e)")
     (auto simp: off_absent off_eq_unsubscribe intro: unsubscribe_wf closure_ok_registered)

lemma off_closure_ok: "closure_ok s u \<Longrightarrow> closure_ok (snd (off e l s)) u"
  by (cases "listeners s (String_js e)")
     (auto simp: off_absent off_eq_unsubscribe intro: unsubscribe_closure_ok)

lemma clear_closure_ok: "closure_ok s u \<Longrightarrow> closure_ok (clear e s) u"
  by (erule closure_ok_mono) (auto simp: clear_def split: option.splits if_splits)

lemma clear_wf:
  assumes wf: "wf_emitter s"
  shows "wf_emitter (clear e s)"
proof -
  let ?s = "clear e s"
  have f: "fresh ?s = fresh s" "scopes ?s = scopes s" "sets ?s = sets s"
    by (auto simp: clear_def split: option.splits)
  have l: "\<And>k a. listeners ?s k = Some a \<Longrightarrow> listeners s k = Some a"
    by (auto simp: clear_def split: option.splits if_splits)
  have p3: "\<forall>c u'. scopes ?s c = Some u' \<longrightarrow> closure_ok ?s u'"
    using wf unfolding wf_emitter_def f by (auto intro: clear_closure_ok)
  show ?thesis
    using wf p3 unfolding wf_emitter_def f by (meson l)
qed

lemma on_fields [simp]: "scopes (snd (on e l s)) = scopes s"
  by (simp add: on_def Let_def)

lemma on_fresh_mono: "fresh s \<le> fresh (snd (on e l s))"
  by (simp add: on_def Let_def)

lemma on_listeners_old:
  "a < fresh s \<Longrightarrow> listeners (snd (on e l s)) k = Some a \<Longrightarrow> listeners s k = Some a"
  by (auto simp: on_def Let_def split: if_splits)

lemma on_closure_ok: "closure_ok s u \<Longrightarrow> closure_ok (snd (on e l s)) u"
  by (erule closure_ok_mono) (auto intro: on_fresh_mono on_listeners_old)

lemma on_wf:
  assumes wf: "wf_emitter s"
  shows "wf_emitter (snd (on e (Fn i) s))"
proof -
  let ?s = "snd (on e (Fn i) s)"
  have p1: "\<forall>k a'. listeners ?s k = Some a' \<longrightarrow> a' < fresh ?s \<and> sets ?s a' \<noteq> []"
    using wf unfolding wf_emitter_def
    by (auto simp: on_def Let_def set_add_def less_Suc_eq split: if_splits)
  have p2: "\<forall>k k' a'. listeners ?s k = Some a' \<longrightarrow> listeners ?s k' = Some a' \<longrightarrow> k = k'"
    using wf unfolding wf_emitter_def by (auto simp: on_def Let_def split: if_splits)
  have p3: "\<forall>c u'. scopes ?s c = Some u' \<longrightarrow> closure_ok ?s u'"
    using wf unfolding wf_emitter_def by (auto intro: on_closure_ok)
  have p4: "\<forall>a' c l'. OnceWrapper c l' \<in> set (sets ?s a') \<longrightarrow>
        c < fresh ?s \<and> (\<exists>k. scopes ?s c = Some (Unsub a' k (OnceWrapper c l')))"
    using wf unfolding wf_emitter_def
    by (auto simp: on_def Let_def set_add_def less_Suc_eq split: if_splits)
  have p5: "\<forall>a'. distinct (sets ?s a')"
    using wf unfolding wf_emitter_def by (auto simp: on_def Let_def set_add_def)
  show ?thesis unfolding wf_emitter_def using p1 p2 p3 p4 p5 by blast
qed

lemma on_handle_ok:
  assumes wf: "wf_emitter s"
  shows "closure_ok (snd (on e l s)) (fst (on e l s))"
  using wf unfolding wf_emitter_def
  by (auto simp: on_def Let_def split: if_splits)

lemma registered_lt: "wf_emitter s \<Longrightarrow> listeners s k = Some a \<Longrightarrow> a < fresh s"
  by (auto simp: wf_emitter_def)

lemma wrapper_lt: "wf_emitter s \<Longrightarrow> OnceWrapper c l \<in> set (sets s a) \<Longrightarrow> c < fresh s"
  by (auto simp: wf_emitter_def)

lemma once_fresh_mono: "fresh s \<le> fresh (snd (once e l s))"
  by (simp add: once_def on_def Let_def)

lemma once_listeners_old:
  "a < fresh s \<Longrightarrow> listeners (snd (once e l s)) k = Some a \<Longrightarrow> listeners s k = Some a"
  by (auto simp: once_def on_def Let_def split: if_splits)

lemma once_closure_ok: "closure_ok s u \<Longrightarrow> closure_ok (snd (once e l s)) u"
  by (erule closure_ok_mono) (auto intro: once_fresh_mono once_listeners_old)

lemma once_handle_ok:
  assumes wf: "wf_emitter s"
  shows "closure_ok (snd (once e l s)) (fst (once e l s))"
  using wf registered_lt[OF wf] unfolding wf_emitter_def
  by (fastforce simp: once_def on_def Let_def less_Suc_eq split: if_splits)

lemma once_scopes:
  "scopes (snd (once e l s)) = (scopes s)(fresh s \<mapsto> fst (once e l s))"
  by (simp add: once_def on_def Let_def)

lemma once_wf:
  assumes wf: "wf_emitter s"
  shows "wf_emitter (snd (once e l s))"
proof -
  let ?s = "snd (once e l s)"
  have p1: "\<forall>k a'. listeners ?s k = Some a' \<longrightarrow> a' < fresh ?s \<and> sets ?s a' \<noteq> []"
    using wf unfolding wf_emitter_def
    by (auto simp: once_def on_def Let_def set_add_def less_Suc_eq split: if_splits)
  have p2: "\<forall>k k' a'. listeners ?s k = Some a' \<longrightarrow> listeners ?s k' = Some a' \<longrightarrow> k = k'"
    using wf registered_lt[OF wf] unfolding wf_emitter_def
    by (fastforce simp: once_def on_def Let_def split: if_splits)
  have p3: "\<forall>c u'. scopes ?s c = Some u' \<longrightarrow> closure_ok ?s u'"
    using wf once_handle_ok[OF wf, of e l] unfolding wf_emitter_def once_scopes
    by (auto intro: once_closure_ok)
  have p4: "\<forall>a' c l'. OnceWrapper c l' \<in> set (sets ?s a') \<longrightarrow>
        c < fresh ?s \<and> (\<exists>k. scopes ?s c = Some (Unsub a' k (OnceWrapper c l')))"
    using wf wrapper_lt[OF wf] unfolding wf_emitter_def
    by (auto simp: once_def on_def Let_def set_add_def less_Suc_eq split: if_splits)
  have p5: "\<forall>a'. distinct (sets ?s a')"
    using wf unfolding wf_emitter_def by (auto simp: once_def on_def Let_def set_add_def)
  show ?thesis unfolding wf_emitter_def using p1 p2 p3 p4 p5 by blast
qed

lemma wf_world_on: "wf_world w \<Longrightarrow> on e (Fn i) (bus w) = (u, s) \<Longrightarrow>
   wf_world (w\<lparr>bus := s, handles := handles w @ [u]\<rparr>)"
  using on_wf[of "bus w" e i] on_handle_ok[of "bus w" e "Fn i"] on_closure_ok[of "bus w" _ e "Fn i"]
  by (auto simp: wf_world_def)

lemma wf_world_once: "wf_world w \<Longrightarrow> once e l (bus w) = (u, s) \<Longrightarrow>
   wf_world (w\<lparr>bus := s, handles := handles w @ [u]\<rparr>)"
  using once_wf[of "bus w" e l] once_handle_ok[of "bus w" e l] once_closure_ok[of "bus w" _ e l]
  by (auto simp: wf_world_def)

lemma wf_world_off: "wf_world w \<Longrightarrow> wf_world (w\<lparr>bus := snd (off e l (bus w))\<rparr>)"
  by (auto simp: wf_world_def off_wf off_closure_ok)

lemma wf_world_clear: "wf_world w \<Longrightarrow> wf_world (w\<lparr>bus := clear e (bus w)\<rparr>)"
  by (auto simp: wf_world_def clear_wf clear_closure_ok)

lemma wf_world_unsubscribe:
  "wf_world w \<Longrightarrow> closure_ok (bus w) u \<Longrightarrow> wf_world (w\<lparr>bus := unsubscribe u (bus w)\<rparr>)"
  by (auto simp: wf_world_def unsubscribe_wf unsubscribe_closure_ok)

lemma wf_world_scope:
  "wf_world w \<Longrightarrow> scopes (bus w) c = Some u \<Longrightarrow> closure_ok (bus w) u"
  by (auto simp: wf_world_def wf_emitter_def)

lemma wf_world_ghost [simp]:
  "wf_world (w\<lparr>trace := t\<rparr>) = wf_world w"
  "wf_world (w\<lparr>emitted := m\<rparr>) = wf_world w"
  "wf_world (w\<lparr>pending := q\<rparr>) = wf_world w"
  by (auto simp: wf_world_def)

lemma wf_world_emitAsync: "wf_world (snd (emitAsync e p w)) = wf_world w"
  by (auto simp: emitAsync_def Let_def split: option.splits)

lemma wf_preserved:
  "exec b n c w = Some (f, w') \<Longrightarrow> wf_world w \<Longrightarrow> wf_world w'"
  "run b n cs w = Some (r, w') \<Longrightarrow> wf_world w \<Longrightarrow> wf_world w'"
  "call b n l d w = Some (r, w') \<Longrightarrow> wf_world w \<Longrightarrow> wf_world w'"
  "emit b n e p w = Some (r, w') \<Longrightarrow> wf_world w \<Longrightarrow> wf_world w'"
  "forEach b n eid ls d w = Some (r, w') \<Longrightarrow> wf_world w \<Longrightarrow> wf_world w'"
proof (induction b n c w and b n cs w and b n l d w and b n e p w and b n eid ls d w
    arbitrary: f w' and r w' and r w' and r w' and r w'
    rule: exec_run_call_emit_forEach.induct)
  case (1 b n e i w)
  then show ?case by (auto simp: wf_world_on split: prod.splits)
next
  case (2 b n e i w)
  then show ?case by (auto simp: wf_world_once split: prod.splits)
next
  case (3 b n e i w)
  then show ?case by (auto simp: wf_world_off)
next
  case (4 b n e w)
  then show ?case by (auto simp: wf_world_clear)
next
  case (5 b n e payload w)
  then show ?case by (auto split: option.splits completion.splits)
next
  case (6 b n e payload w)
  then show ?case
    using wf_world_emitAsync[of e payload w] by (auto split: prod.splits option.splits)
next
  case (7 b n j w)
  then show ?case by (auto simp: wf_world_def intro!: unsubscribe_wf unsubscribe_closure_ok split: if_splits)
next
  case (8 b n c w)
  then show ?case by (auto split: option.splits completion.splits flow.splits)
next
  case (13 b n c cs w)
  then show ?case by (auto split: option.splits completion.splits flow.splits)
next
  case (16 b n c listener payload w)
  then show ?case
    by (auto split: option.splits completion.splits)
       (metis wf_world_unsubscribe wf_world_scope)+
next
  case (17 b n event payload w)
  then show ?case by (auto simp: Let_def split: option.splits)
next
  case (19 b n eid l ls data w)
  then show ?case by (auto split: option.splits completion.splits)
qed auto

lemma advances_refl [simp]: "advances own w w"
  by (simp add: advances_def)

lemma advances_trans:
  "advances own w w1 \<Longrightarrow> advances own w1 w2 \<Longrightarrow> advances own w w2"
  unfolding advances_def by (fastforce)

lemma advances_upd [simp]:
  "advances own w (w'\<lparr>bus := s\<rparr>) = advances own w w'"
  "advances own w (w'\<lparr>handles := h\<rparr>) = advances own w w'"
  "advances own w (w'\<lparr>pending := q\<rparr>) = advances own w w'"
  "advances own (w\<lparr>bus := s\<rparr>) w' = advances own w w'"
  "advances own (w\<lparr>handles := h\<rparr>) w' = advances own w w'"
  "advances own (w\<lparr>pending := q\<rparr>) w' = advances own w w'"
  by (simp_all add: advances_def)

lemma advances_emitAsync: "advances own w (snd (emitAsync e p w))"
  by (auto simp: advances_def emitAsync_def Let_def split: option.splits)

lemma advances_snapshot:
  "advances (Some (emitted w)) (w\<lparr>emitted := Suc (emitted w), trace := trace w @ [Snapshot (emitted w) key ls]\<rparr>) w'
   \<Longrightarrow> advances None w w'"
  unfolding advances_def by (fastforce simp: Suc_le_eq le_less)

lemma advances_invoke:
  "advances None (w\<lparr>trace := trace w @ [Invoke eid l d]\<rparr>) w' \<Longrightarrow> advances (Some eid) w w'"
  unfolding advances_def by fastforce

lemma advances_preserved:
  "exec b n c w = Some (f, w') \<Longrightarrow> advances None w w'"
  "run b n cs w = Some (r, w') \<Longrightarrow> advances None w w'"
  "call b n l d w = Some (r, w') \<Longrightarrow> advances None w w'"
  "emit b n e p w = Some (r, w') \<Longrightarrow> advances None w w'"
  "forEach b n eid ls d w = Some (r, w') \<Longrightarrow> advances (Some eid) w w'"
proof (induction b n c w and b n cs w and b n l d w and b n e p w and b n eid ls d w
    arbitrary: f w' and r w' and r w' and r w' and r w'
    rule: exec_run_call_emit_forEach.induct)
  case (1 b n e i w)
  then show ?case by (auto split: prod.splits)
next
  case (2 b n e i w)
  then show ?case by (auto split: prod.splits)
next
  case (5 b n e payload w)
  then show ?case by (auto split: option.splits completion.splits)
next
  case (6 b n e payload w)
  then show ?case
    using advances_emitAsync[of None w e payload] by (auto split: prod.splits option.splits)
next
  case (7 b n j w)
  then show ?case by (auto split: if_splits)
next
  case (8 b n c w)
  then show ?case by (auto split: option.splits completion.splits flow.splits)
next
  case (13 b n c cs w)
  then show ?case
    by (auto split: option.splits completion.splits flow.splits intro: advances_trans)
next
  case (16 b n c listener payload w)
  then show ?case
    by (auto split: option.splits completion.splits)
next
  case (17 b n event payload w)
  show ?case
  proof (cases "listeners (bus w) (String_js event)")
    case None
    with "17.prems" show ?thesis by simp
  next
    case (Some a)
    with "17.prems" have fe: "forEach b n (emitted w) (sets (bus w) a) (first_arg payload)
        (w\<lparr>emitted := Suc (emitted w),
           trace := trace w @ [Snapshot (emitted w) (String_js event) (sets (bus w) a)]\<rparr>)
        = Some (r, w')"
      by (simp add: Let_def)
    from "17.IH"[OF refl Some refl refl fe] show ?thesis by (rule advances_snapshot)
  qed
next
  case (19 b n eid l ls data w)
  then show ?case
    by (auto split: option.splits completion.splits
        intro: advances_invoke advances_trans[OF advances_invoke])
qed auto

lemmas eval_defs = new_world_def new_emitter_def on_def once_def off_def clear_def emitAsync_def
  set_add_def set_delete_def unsubscribe.simps emit.simps registered_def listenerCount_def
  hasListeners_def Let_def

lemma run_jobs_wf:
  "run_jobs b n eid ls d w = Some (rs, w') \<Longrightarrow> wf_world w \<Longrightarrow> wf_world w'"
proof (induction ls arbitrary: w rs)
  case Nil
  then show ?case by simp
next
  case (Cons l ls)
  from Cons.prems(1) obtain r w1 rs1 where
    c: "call b n l d (w\<lparr>trace := trace w @ [Invoke eid l d]\<rparr>) = Some (r, w1)" and
    j: "run_jobs b n eid ls d w1 = Some (rs1, w')"
    by (auto split: option.splits prod.splits)
  from wf_preserved(3)[OF c] Cons.prems(2) have "wf_world w1" by simp
  with Cons.IH[OF j] show ?case by blast
qed

lemma steps_wf: "steps b n ss w = Some w' \<Longrightarrow> wf_world w \<Longrightarrow> wf_world w'"
proof (induction ss arbitrary: w)
  case Nil
  then show ?case by simp
next
  case (Cons st ss)
  show ?case
  proof (cases st)
    case (Call c)
    with Cons.prems(1) obtain f w1 where
      e: "exec b n c w = Some (f, w1)" and s: "steps b n ss w1 = Some w'"
      by (auto split: option.splits prod.splits)
    from wf_preserved(1)[OF e Cons.prems(2)] Cons.IH[OF s] show ?thesis by blast
  next
    case Microtask
    show ?thesis
    proof (cases "pending w")
      case Nil
      with Microtask Cons.prems(1) have "steps b n ss w = Some w'" by simp
      from Cons.IH[OF this Cons.prems(2)] show ?thesis .
    next
      case (Cons job q)
      obtain eid ls d where job: "job = (eid, ls, d)" by (cases job)
      from Microtask Cons job \<open>steps b n (st # ss) w = Some w'\<close> obtain rs w1 where
        j: "run_jobs b n eid ls d (w\<lparr>pending := q\<rparr>) = Some (rs, w1)" and
        s: "steps b n ss w1 = Some w'"
        by (auto split: option.splits prod.splits)
      from run_jobs_wf[OF j] \<open>wf_world w\<close> have "wf_world w1" by simp
      with \<open>\<And>w. steps b n ss w = Some w' \<Longrightarrow> wf_world w \<Longrightarrow> wf_world w'\<close>[OF s]
      show ?thesis by blast
    qed
  qed
qed

lemma wf_new_world: "wf_world new_world"
  by (simp add: wf_world_def new_world_def wf_new)

lemma direct_append [simp]: "direct eid (xs @ ys) = direct eid xs @ direct eid ys"
  by (induction eid xs rule: direct.induct) auto

lemma direct_later:
  "\<forall>x \<in> set new. m \<le> entry_id x \<Longrightarrow> eid < m \<Longrightarrow> direct eid new = []"
  by (induction eid new rule: direct.induct) auto

lemma call_trace:
  assumes "call b n l d w = Some (r, w')" "eid < emitted w"
  shows "\<exists>new. trace w' = trace w @ new \<and> direct eid new = [] \<and> eid < emitted w'"
proof -
  from advances_preserved(3)[OF assms(1)] obtain new where
    "emitted w \<le> emitted w'" "trace w' = trace w @ new"
    "\<forall>x \<in> set new. emitted w \<le> entry_id x"
    by (auto simp: advances_def)
  with assms(2) direct_later[of new "emitted w" eid] show ?thesis by auto
qed

lemma forEach_trace:
  assumes "forEach b n eid ls d w = Some (r, w')" "eid < emitted w"
  shows "\<exists>new k. trace w' = trace w @ new \<and> k \<le> length ls \<and>
           direct eid new = map (\<lambda>l. (l, d)) (take k ls) \<and>
           ((\<forall>x. r \<noteq> Throws x) \<longrightarrow> k = length ls) \<and> eid < emitted w'"
  using assms
proof (induction ls arbitrary: w)
  case Nil
  then show ?case by simp
next
  case (Cons l ls)
  let ?w0 = "w\<lparr>trace := trace w @ [Invoke eid l d]\<rparr>"
  from Cons.prems(1) obtain rc w1 where c: "call b n l d ?w0 = Some (rc, w1)"
    by (auto split: option.splits)
  from call_trace[OF c, of eid] Cons.prems(2) obtain new1 where
    t1: "trace w1 = trace w @ [Invoke eid l d] @ new1" "direct eid new1 = []" "eid < emitted w1"
    by auto
  show ?case
  proof (cases "\<exists>x. rc = Throws x")
    case True
    with Cons.prems(1) c have "r = rc" "w' = w1" by auto
    with t1 True show ?thesis
      by (intro exI[of _ "[Invoke eid l d] @ new1"] exI[of _ "Suc 0"]) auto
  next
    case False
    with Cons.prems(1) c have f: "forEach b n eid ls d w1 = Some (r, w')"
      by (auto split: completion.splits)
    from Cons.IH[OF f t1(3)] obtain new k where
      t2: "trace w' = trace w1 @ new" "k \<le> length ls"
        "direct eid new = map (\<lambda>l. (l, d)) (take k ls)"
        "(\<forall>x. r \<noteq> Throws x) \<longrightarrow> k = length ls" "eid < emitted w'"
      by blast
    with t1 show ?thesis
      by (intro exI[of _ "[Invoke eid l d] @ new1 @ new"] exI[of _ "Suc k"]) auto
  qed
qed

lemma run_jobs_trace:
  assumes "run_jobs b n eid ls d w = Some (rs, w')" "eid < emitted w"
  shows "\<exists>new. trace w' = trace w @ new \<and> direct eid new = map (\<lambda>l. (l, d)) ls \<and>
           length rs = length ls \<and> eid < emitted w'"
  using assms
proof (induction ls arbitrary: w rs)
  case Nil
  then show ?case by simp
next
  case (Cons l ls)
  let ?w0 = "w\<lparr>trace := trace w @ [Invoke eid l d]\<rparr>"
  from Cons.prems(1) obtain rc w1 rs1 where c: "call b n l d ?w0 = Some (rc, w1)"
    and j: "run_jobs b n eid ls d w1 = Some (rs1, w')" and rs: "rs = rc # rs1"
    by (auto split: option.splits)
  from call_trace[OF c, of eid] Cons.prems(2) obtain new1 where
    t1: "trace w1 = trace w @ [Invoke eid l d] @ new1" "direct eid new1 = []" "eid < emitted w1"
    by auto
  from Cons.IH[OF j t1(3)] obtain new where
    t2: "trace w' = trace w1 @ new" "direct eid new = map (\<lambda>l. (l, d)) ls"
      "length rs1 = length ls" "eid < emitted w'"
    by blast
  with t1 rs show ?case
    by (intro exI[of _ "[Invoke eid l d] @ new1 @ new"]) auto
qed

lemma emit_trace:
  assumes "emit b n e p w = Some (r, w')"
  shows "\<exists>k. k \<le> length (registered e (bus w)) \<and>
           direct (emitted w) (added w w') =
             map (\<lambda>l. (l, first_arg p)) (take k (registered e (bus w))) \<and>
           ((\<forall>x. r \<noteq> Throws x) \<longrightarrow> k = length (registered e (bus w)))"
proof (cases "listeners (bus w) (String_js e)")
  case None
  with assms show ?thesis by (simp add: registered_def added_def)
next
  case (Some a)
  let ?w0 = "w\<lparr>emitted := Suc (emitted w),
                trace := trace w @ [Snapshot (emitted w) (String_js e) (sets (bus w) a)]\<rparr>"
  from assms Some have f: "forEach b n (emitted w) (sets (bus w) a) (first_arg p) ?w0 = Some (r, w')"
    by (simp add: Let_def)
  from forEach_trace[OF f] obtain new k where
    "trace w' = trace ?w0 @ new" "k \<le> length (sets (bus w) a)"
    "direct (emitted w) new = map (\<lambda>l. (l, first_arg p)) (take k (sets (bus w) a))"
    "(\<forall>x. r \<noteq> Throws x) \<longrightarrow> k = length (sets (bus w) a)"
    by auto
  with Some show ?thesis
    by (intro exI[of _ k]) (simp add: registered_def added_def)
qed

lemma emitAsync_cases:
  "emitAsync e p w = (Some (eid, ls, d), w0) \<Longrightarrow>
     eid = emitted w \<and> ls = registered e (bus w) \<and> d = first_arg p \<and>
     emitted w0 = Suc (emitted w) \<and> bus w0 = bus w \<and>
     trace w0 = trace w @ [Snapshot (emitted w) (String_js e) ls]"
  by (auto simp: emitAsync_def registered_def Let_def split: option.splits)

declare emit.simps [simp del]

lemma forEach_append_ok:
  "forEach b n eid xs d w = Some (r, w1) \<Longrightarrow> \<forall>x. r \<noteq> Throws x \<Longrightarrow>
   forEach b n eid (xs @ ys) d w = forEach b n eid ys d w1"
proof (induction xs arbitrary: w)
  case Nil
  then show ?case by simp
next
  case (Cons l xs)
  then show ?case
    by (auto split: option.splits completion.splits)
qed

lemma await_emitAsync_trace:
  assumes "await_emitAsync b n order e p w = Some (res, w')"
  shows "direct (emitted w) (added w w') = map (\<lambda>l. (l, first_arg p)) (registered e (bus w))"
proof (cases "listeners (bus w) (String_js e)")
  case None
  with assms show ?thesis
    by (simp add: await_emitAsync_def emitAsync_def registered_def added_def)
next
  case (Some a)
  let ?w0 = "w\<lparr>emitted := Suc (emitted w),
                trace := trace w @ [Snapshot (emitted w) (String_js e) (sets (bus w) a)]\<rparr>"
  from assms Some obtain rs where
    j: "run_jobs b n (emitted w) (sets (bus w) a) (first_arg p) ?w0 = Some (rs, w')"
    by (auto simp: await_emitAsync_def emitAsync_def Let_def split: option.splits)
  from run_jobs_trace[OF j] obtain new where
    "trace w' = trace ?w0 @ new"
    "direct (emitted w) new = map (\<lambda>l. (l, first_arg p)) (sets (bus w) a)"
    by auto
  with Some show ?thesis by (simp add: registered_def added_def)
qed

lemma example_worlds:
  "bus two_listeners = \<lparr>listeners = [''x'' \<mapsto> 0], sets = (\<lambda>_. [])(0 := [Fn 0, Fn 1]), fresh = 1, scopes = Map.empty\<rparr>"
  "emitted two_listeners = 0" "trace two_listeners = []"
  "bus three_listeners = \<lparr>listeners = [''x'' \<mapsto> 0], sets = (\<lambda>_. [])(0 := [Fn 1, Fn 0, Fn 2]), fresh = 1, scopes = Map.empty\<rparr>"
  "emitted three_listeners = 0" "trace three_listeners = []"
  by (simp_all add: two_listeners_def three_listeners_def eval_defs)

lemma unsubscribe_removes:
  assumes "distinct (sets s a)"
  shows "l \<notin> set (sets (unsubscribe (Unsub a k l) s) a)"
  using assms by (auto simp: unsubscribe.simps Let_def set_delete_def)

lemma wrapper_scope:
  "wf_emitter s \<Longrightarrow> OnceWrapper c l \<in> set (sets s a) \<Longrightarrow>
   \<exists>k. scopes s c = Some (Unsub a k (OnceWrapper c l))"
  unfolding wf_emitter_def by blast

lemma wrapper_gone:
  assumes wf: "wf_emitter s" and sc: "scopes s c = Some u"
  shows "OnceWrapper c l \<notin> set (sets (unsubscribe u s) a)"
proof
  assume m: "OnceWrapper c l \<in> set (sets (unsubscribe u s) a)"
  then have m0: "OnceWrapper c l \<in> set (sets s a)" by (rule unsubscribe_sets_subset)
  with wrapper_scope[OF wf] sc obtain k where u: "u = Unsub a k (OnceWrapper c l)"
    by fastforce
  from wf have "distinct (sets s a)" by (simp add: wf_emitter_def)
  from unsubscribe_removes[OF this, of "OnceWrapper c l" k] m u show False by simp
qed





















lemma listener_promise_not_rejected: "listener_promise r \<noteq> Rejected x"
  by (cases r rule: listener_promise.cases) auto

lemma Promise_all_loop_not_rejected:
  "\<forall>p \<in> set ps. \<forall>e. p \<noteq> Rejected e \<Longrightarrow>
   Promise_all_loop ps order vals remaining \<noteq> Rejected x"
proof (induction order arbitrary: vals remaining)
  case Nil
  then show ?case by simp
next
  case (Cons i order)
  show ?case
  proof (cases "i < length ps")
    case True
    then have "ps ! i \<in> set ps" by simp
    with Cons.prems have nr: "\<forall>e. ps ! i \<noteq> Rejected e" by blast
    show ?thesis
      using True nr Cons.IH[OF Cons.prems]
      by (cases "ps ! i") (auto simp: Let_def)
  next
    case False
    with Cons.IH[OF Cons.prems] show ?thesis by simp
  qed
qed

lemma Promise_all_not_rejected:
  "\<forall>p \<in> set ps. \<forall>e. p \<noteq> Rejected e \<Longrightarrow> Promise_all ps order \<noteq> Rejected x"
  by (simp add: Promise_all_def Promise_all_loop_not_rejected)

lemma Promise_all_loop_complete:
  assumes "length ps = length xs" "\<forall>j < length xs. ps ! j = Fulfilled (xs ! j)"
    and "distinct order" "set order \<subseteq> {..<length xs}" "order \<noteq> []"
    and "length vals = length xs"
    and "\<forall>j < length xs. vals ! j = (if j \<in> set order then None else Some (xs ! j))"
  shows "Promise_all_loop ps order vals (length order) = Fulfilled xs"
  using assms
proof (induction order arbitrary: vals)
  case Nil
  then show ?case by simp
next
  case (Cons i order)
  from Cons.prems(3,4) have i0: "i < length xs" "i \<notin> set order"
    by auto
  with Cons.prems(2) have i: "i < length xs" "ps ! i = Fulfilled (xs ! i)" "i \<notin> set order"
    by blast+
  let ?v = "vals[i := Some (xs ! i)]"
  have v: "\<forall>j < length xs. ?v ! j = (if j \<in> set order then None else Some (xs ! j))"
  proof (intro allI impI)
    fix j assume j: "j < length xs"
    with Cons.prems(7) have "vals ! j = (if j \<in> set (i # order) then None else Some (xs ! j))"
      by blast
    with j i Cons.prems(6) show "?v ! j = (if j \<in> set order then None else Some (xs ! j))"
      by (cases "j = i") (simp_all add: nth_list_update)
  qed
  show ?case
  proof (cases "order = []")
    case True
    with v have "\<forall>j < length xs. ?v ! j = Some (xs ! j)" by simp
    then have "map the ?v = xs"
      using Cons.prems(6) by (intro nth_equalityI) auto
    with True i Cons.prems(1) show ?thesis by (simp add: Let_def)
  next
    case False
    have "distinct order" "set order \<subseteq> {..<length xs}" "length ?v = length xs"
      using Cons.prems(3,4,6) by auto
    from Cons.IH[OF Cons.prems(1,2) this(1,2) False this(3) v]
    have "Promise_all_loop ps order ?v (length order) = Fulfilled xs" .
    with False i Cons.prems(1) show ?thesis by (simp add: Let_def)
  qed
qed


lemma Promise_all_complete:
  assumes "length ps = length xs" "\<forall>j < length xs. ps ! j = Fulfilled (xs ! j)"
    and "distinct order" "set order = {..<length xs}"
  shows "Promise_all ps order = Fulfilled xs"
proof (cases "xs = []")
  case True
  with assms(1) show ?thesis by (simp add: Promise_all_def)
next
  case False
  have ne: "order \<noteq> []"
  proof
    assume "order = []"
    with assms(4) have "{..<length xs} = {}" by simp
    with False show False by (simp add: lessThan_empty_iff)
  qed
  have "card (set order) = length order" using assms(3) by (rule distinct_card)
  with assms(4) have len: "length order = length xs" by simp
  have sub: "set order \<subseteq> {..<length xs}" using assms(4) by simp
  have init: "\<forall>j < length xs. replicate (length xs) None ! j =
      (if j \<in> set order then None else Some (xs ! j))"
    using assms(4) by simp
  have "Promise_all_loop ps order (replicate (length xs) None) (length order) = Fulfilled xs"
    by (rule Promise_all_loop_complete[OF assms(1,2,3) sub ne _ init]) simp
  then have "Promise_all_loop ps order (replicate (length ps) None) (length ps) = Fulfilled xs"
    unfolding len assms(1) .
  moreover have "ps \<noteq> []" using False assms(1) by auto
  ultimately show ?thesis by (simp add: Promise_all_def)
qed

lemma Promise_all_loop_fulfilled:
  assumes "distinct order" "D \<inter> set order = {}" "D \<subseteq> {..<length ps}"
    and "length vals = length ps"
    and "\<forall>j \<in> D. ps ! j = Fulfilled (the (vals ! j))"
    and "remaining + card D = length ps"
    and "Promise_all_loop ps order vals remaining = Fulfilled os"
  shows "length os = length ps \<and> (\<forall>j < length ps. ps ! j = Fulfilled (os ! j))"
  using assms
proof (induction order arbitrary: D vals remaining)
  case Nil
  then show ?case by simp
next
  case (Cons i order)
  have fin: "finite D" using Cons.prems(3) finite_subset by blast
  have D': "D \<inter> set order = {}" "distinct order" "i \<notin> D" "i \<notin> set order"
    using Cons.prems(1,2) by auto
  show ?case
  proof (cases "i < length ps")
    case False
    with Cons.prems(7) have "Promise_all_loop ps order vals remaining = Fulfilled os" by simp
    from Cons.IH[OF D'(2,1) Cons.prems(3,4,5,6) this] show ?thesis .
  next
    case True
    show ?thesis
    proof (cases "ps ! i")
      case Pending
      with True Cons.prems(7) have "Promise_all_loop ps order vals remaining = Fulfilled os"
        by simp
      from Cons.IH[OF D'(2,1) Cons.prems(3,4,5,6) this] show ?thesis .
    next
      case (Rejected e)
      with True Cons.prems(7) show ?thesis by simp
    next
      case (Fulfilled x)
      let ?v = "vals[i := Some x]" and ?D = "insert i D"
      have sub: "?D \<subseteq> {..<length ps}" using True Cons.prems(3) by auto
      have dis: "?D \<inter> set order = {}" using D' by auto
      have len: "length ?v = length ps" using Cons.prems(4) by simp
      have inv: "\<forall>j \<in> ?D. ps ! j = Fulfilled (the (?v ! j))"
      proof
        fix j assume j: "j \<in> ?D"
        show "ps ! j = Fulfilled (the (?v ! j))"
        proof (cases "j = i")
          case True
          with Fulfilled \<open>i < length ps\<close> Cons.prems(4) show ?thesis by simp
        next
          case False
          with j have "j \<in> D" by simp
          with Cons.prems(5) have "ps ! j = Fulfilled (the (vals ! j))" by blast
          with False show ?thesis by simp
        qed
      qed
      have cardD: "card ?D = Suc (card D)" using fin D'(3) by simp
      have "card ?D \<le> length ps" using sub card_mono[of "{..<length ps}" ?D] by simp
      with cardD Cons.prems(6) have rem: "(remaining - 1) + card ?D = length ps" by arith
      show ?thesis
      proof (cases "remaining - 1 = 0")
        case True
        with rem have "card ?D = card {..<length ps}" by simp
        with sub have all: "?D = {..<length ps}" by (intro card_subset_eq) auto
        from True Fulfilled \<open>i < length ps\<close> Cons.prems(7) have os: "os = map the ?v"
          by (simp add: Let_def)
        have "length os = length ps" using os len by simp
        moreover have "\<forall>j < length ps. ps ! j = Fulfilled (os ! j)"
        proof (intro allI impI)
          fix j assume j: "j < length ps"
          with all have "j \<in> ?D" by simp
          with inv have "ps ! j = Fulfilled (the (?v ! j))" by blast
          with j len os show "ps ! j = Fulfilled (os ! j)" by simp
        qed
        ultimately show ?thesis by simp
      next
        case False
        with Fulfilled \<open>i < length ps\<close> Cons.prems(7)
        have "Promise_all_loop ps order ?v (remaining - 1) = Fulfilled os"
          by (simp add: Let_def)
        from Cons.IH[OF D'(2) dis sub len inv rem this] show ?thesis .
      qed
    qed
  qed
qed

lemma Promise_all_fulfilled:
  assumes "distinct order" "Promise_all ps order = Fulfilled os"
  shows "length os = length ps \<and> (\<forall>j < length ps. ps ! j = Fulfilled (os ! j))"
proof (cases "ps = []")
  case True
  with assms(2) show ?thesis by (simp add: Promise_all_def)
next
  case False
  with assms(2) have "Promise_all_loop ps order (replicate (length ps) None) (length ps)
      = Fulfilled os"
    by (simp add: Promise_all_def)
  from Promise_all_loop_fulfilled[OF assms(1) _ _ _ _ _ this, of "{}"] show ?thesis by simp
qed


lemma run_jobs_calls:
  "run_jobs b n eid ls d w = Some (rs, w') \<Longrightarrow>
   \<forall>i < length ls. \<exists>wi wi'. call b n (ls ! i) d wi = Some (rs ! i, wi')"
proof (induction ls arbitrary: w rs)
  case Nil
  then show ?case by simp
next
  case (Cons l ls)
  from Cons.prems obtain rc w1 rs1 where
    c: "call b n l d (w\<lparr>trace := trace w @ [Invoke eid l d]\<rparr>) = Some (rc, w1)"
    and j: "run_jobs b n eid ls d w1 = Some (rs1, w')" and rs: "rs = rc # rs1"
    by (auto split: option.splits)
  show ?case
  proof (intro allI impI)
    fix i assume "i < length (l # ls)"
    then show "\<exists>wi wi'. call b n ((l # ls) ! i) d wi = Some (rs ! i, wi')"
      using c Cons.IH[OF j] rs by (cases i) auto
  qed
qed

lemma await_emitAsync_cases:
  assumes "await_emitAsync b n order e p w = Some (res, w')"
  shows "\<exists>rs. length rs = length (registered e (bus w)) \<and>
           res = Promise_all (map listener_promise rs) order \<and>
           (\<forall>i < length rs. \<exists>wi wi'.
              call b n (registered e (bus w) ! i) (first_arg p) wi = Some (rs ! i, wi'))"
proof (cases "listeners (bus w) (String_js e)")
  case None
  with assms have "res = Fulfilled []"
    by (simp add: await_emitAsync_def emitAsync_def)
  with None show ?thesis
    by (intro exI[of _ "[]"]) (simp add: registered_def Promise_all_def)
next
  case (Some a)
  let ?w0 = "w\<lparr>emitted := Suc (emitted w),
      trace := trace w @ [Snapshot (emitted w) (String_js e) (sets (bus w) a)]\<rparr>"
  from assms Some obtain rs where
    j: "run_jobs b n (emitted w) (registered e (bus w)) (first_arg p) ?w0 = Some (rs, w')"
    and res: "res = Promise_all (map listener_promise rs) order"
    by (auto simp: await_emitAsync_def emitAsync_def Let_def registered_def split: option.splits)
  from run_jobs_trace[OF j] have len: "length rs = length (registered e (bus w))" by auto
  from run_jobs_calls[OF j] len res show ?thesis by (intro exI[of _ rs]) simp
qed

lemma listener_promises_settle:
  "\<forall>r \<in> set rs. r \<noteq> ReturnsPromise Pending \<Longrightarrow>
   \<exists>os. length os = length rs \<and> (\<forall>i < length rs. listener_promise (rs ! i) = Fulfilled (os ! i))"
proof (induction rs)
  case Nil
  then show ?case by simp
next
  case (Cons r rs)
  then obtain os where os: "length os = length rs"
    "\<forall>i < length rs. listener_promise (rs ! i) = Fulfilled (os ! i)" by auto
  from Cons.prems have "r \<noteq> ReturnsPromise Pending" by simp
  then obtain x where x: "listener_promise r = Fulfilled x"
    by (cases r rule: listener_promise.cases) auto
  have "\<forall>i < length (r # rs). listener_promise ((r # rs) ! i) = Fulfilled ((x # os) ! i)"
  proof (intro allI impI)
    fix i assume "i < length (r # rs)"
    with os x show "listener_promise ((r # rs) ! i) = Fulfilled ((x # os) ! i)"
      by (cases i) auto
  qed
  with os(1) show ?case by (intro exI[of _ "x # os"]) simp
qed

lemma listener_promise_outcome:
  assumes "listener_promise r = Fulfilled x"
  shows "(\<forall>v. r = Returns v \<or> r = ReturnsPromise (Fulfilled v) \<longrightarrow> x = Ok v) \<and>
         (\<forall>e. r = Throws e \<or> r = ReturnsPromise (Rejected e) \<longrightarrow> x = Failed e)"
  using assms by (cases r rule: listener_promise.cases) auto

lemma exec_total: "\<not> emits c \<Longrightarrow> \<exists>f w'. exec b n c w = Some (f, w')"
proof (induction c arbitrary: w)
  case (Try c)
  then obtain f w' where "exec b n c w = Some (f, w')" by fastforce
  then show ?case by (cases f; cases "case f of Finish r \<Rightarrow> r") (auto split: completion.splits)
qed (auto split: prod.splits option.splits)

lemma run_total: "\<forall>c \<in> set cs. \<not> emits c \<Longrightarrow> \<exists>r w'. run b n cs w = Some (r, w')"
proof (induction cs arbitrary: w)
  case Nil
  then show ?case by simp
next
  case (Cons c cs)
  then obtain f w1 where e: "exec b n c w = Some (f, w1)"
    using exec_total[of c b n w] by auto
  from Cons obtain r w' where "run b n cs w1 = Some (r, w')" by fastforce
  with e show ?case by (cases f) auto
qed

lemma call_total: "returns b n d l \<Longrightarrow> \<exists>r w'. call b n l d w = Some (r, w')"
proof (induction l arbitrary: n w)
  case (Fn i)
  then obtain m where "n = Suc m" by (cases n) (auto simp: returns_def)
  with Fn run_total[of "b i d" b m w] show ?case by (auto simp: returns_def)
next
  case (OnceWrapper c l)
  then obtain m where n: "n = Suc m" by (cases n) (auto simp: returns_def)
  with OnceWrapper.prems have "returns b m d l" by (simp add: returns_def)
  from OnceWrapper.IH[OF this, of w] n show ?case by auto
qed

lemma run_jobs_total:
  "\<forall>l \<in> set ls. returns b n d l \<Longrightarrow> \<exists>rs w'. run_jobs b n eid ls d w = Some (rs, w')"
proof (induction ls arbitrary: w)
  case Nil
  then show ?case by simp
next
  case (Cons l ls)
  then obtain r w1 where c: "call b n l d (w\<lparr>trace := trace w @ [Invoke eid l d]\<rparr>) = Some (r, w1)"
    using call_total[of b n d l] by fastforce
  from Cons obtain rs w' where "run_jobs b n eid ls d w1 = Some (rs, w')" by fastforce
  with c show ?case by simp
qed

lemma await_emitAsync_total:
  assumes "\<forall>l \<in> set (registered e (bus w)). returns b n (first_arg p) l"
  shows "\<exists>res w'. await_emitAsync b n order e p w = Some (res, w')"
proof (cases "listeners (bus w) (String_js e)")
  case None
  then show ?thesis by (simp add: await_emitAsync_def emitAsync_def)
next
  case (Some a)
  let ?w0 = "w\<lparr>emitted := Suc (emitted w),
      trace := trace w @ [Snapshot (emitted w) (String_js e) (sets (bus w) a)]\<rparr>"
  from assms Some have "\<forall>l \<in> set (sets (bus w) a). returns b n (first_arg p) l"
    by (simp add: registered_def)
  from run_jobs_total[OF this, of "emitted w" ?w0] Some show ?thesis
    by (auto simp: await_emitAsync_def emitAsync_def Let_def)
qed

lemma await_emitAsync_outcomes:
  assumes "await_emitAsync b n order e p w = Some (res, w')"
  shows "(\<forall>x. res \<noteq> Rejected x) \<and>
         direct (emitted w) (added w w') =
           map (\<lambda>l. (l, first_arg p)) (registered e (bus w)) \<and>
         (\<exists>rs. length rs = length (registered e (bus w)) \<and>
            (\<forall>i < length rs. \<exists>wi wi'.
               call b n (registered e (bus w) ! i) (first_arg p) wi = Some (rs ! i, wi')) \<and>
            (distinct order \<and> set order = {..<length rs} \<and>
             (\<forall>r \<in> set rs. r \<noteq> ReturnsPromise Pending) \<longrightarrow>
               (\<exists>os. res = Fulfilled os \<and> length os = length rs \<and>
                  (\<forall>i < length rs.
                     (\<forall>v. rs ! i = Returns v \<or> rs ! i = ReturnsPromise (Fulfilled v) \<longrightarrow>
                          os ! i = Ok v) \<and>
                     (\<forall>x. rs ! i = Throws x \<or> rs ! i = ReturnsPromise (Rejected x) \<longrightarrow>
                          os ! i = Failed x)))))"
proof -
  from await_emitAsync_cases[OF assms] obtain rs where
    len: "length rs = length (registered e (bus w))" and
    res: "res = Promise_all (map listener_promise rs) order" and
    calls: "\<forall>i < length rs. \<exists>wi wi'.
              call b n (registered e (bus w) ! i) (first_arg p) wi = Some (rs ! i, wi')"
    by blast
  have nr: "\<forall>x. res \<noteq> Rejected x"
    unfolding res by (intro allI Promise_all_not_rejected) (auto simp: listener_promise_not_rejected)
  have settle: "distinct order \<and> set order = {..<length rs} \<and>
             (\<forall>r \<in> set rs. r \<noteq> ReturnsPromise Pending) \<longrightarrow>
               (\<exists>os. res = Fulfilled os \<and> length os = length rs \<and>
                  (\<forall>i < length rs.
                     (\<forall>v. rs ! i = Returns v \<or> rs ! i = ReturnsPromise (Fulfilled v) \<longrightarrow>
                          os ! i = Ok v) \<and>
                     (\<forall>x. rs ! i = Throws x \<or> rs ! i = ReturnsPromise (Rejected x) \<longrightarrow>
                          os ! i = Failed x)))"
  proof
    assume a: "distinct order \<and> set order = {..<length rs} \<and>
             (\<forall>r \<in> set rs. r \<noteq> ReturnsPromise Pending)"
    from listener_promises_settle[of rs] a obtain os where
      os: "length os = length rs"
        "\<forall>i < length rs. listener_promise (rs ! i) = Fulfilled (os ! i)" by blast
    have "Promise_all (map listener_promise rs) order = Fulfilled os"
    proof (rule Promise_all_complete)
      show "length (map listener_promise rs) = length os" using os(1) by simp
      show "\<forall>j < length os. map listener_promise rs ! j = Fulfilled (os ! j)"
        using os by simp
      show "distinct order" using a by simp
      show "set order = {..<length os}" using a os(1) by simp
    qed
    moreover have "\<forall>i < length rs.
                     (\<forall>v. rs ! i = Returns v \<or> rs ! i = ReturnsPromise (Fulfilled v) \<longrightarrow>
                          os ! i = Ok v) \<and>
                     (\<forall>x. rs ! i = Throws x \<or> rs ! i = ReturnsPromise (Rejected x) \<longrightarrow>
                          os ! i = Failed x)"
      using os(2) listener_promise_outcome by blast
    ultimately show "\<exists>os. res = Fulfilled os \<and> length os = length rs \<and>
                  (\<forall>i < length rs.
                     (\<forall>v. rs ! i = Returns v \<or> rs ! i = ReturnsPromise (Fulfilled v) \<longrightarrow>
                          os ! i = Ok v) \<and>
                     (\<forall>x. rs ! i = Throws x \<or> rs ! i = ReturnsPromise (Rejected x) \<longrightarrow>
                          os ! i = Failed x))"
      using os(1) res by blast
  qed
  from nr await_emitAsync_trace[OF assms] len calls settle show ?thesis by blast
qed

lemma emission_snapshot:
  "(emit b n e p w = Some (r, w') \<longrightarrow>
      (\<exists>k \<le> length (registered e (bus w)).
          map fst (direct (emitted w) (added w w')) = take k (registered e (bus w)) \<and>
          ((\<forall>x. r \<noteq> Throws x) \<longrightarrow> k = length (registered e (bus w)))) \<and>
      (\<forall>l v. (l, v) \<in> set (direct (emitted w) (added w w')) \<longrightarrow>
          l \<in> set (registered e (bus w)))) \<and>
   (emitAsync e p w = (Some (eid, ls, d), w0) \<and> eid < emitted w1 \<and>
    run_jobs b m eid ls d w1 = Some (rs, w2) \<longrightarrow>
      ls = registered e (bus w) \<and> map fst (direct eid (added w1 w2)) = ls)"
proof (intro conjI impI)
  assume em: "emit b n e p w = Some (r, w')"
  from emit_trace[OF em] obtain k where
    k: "k \<le> length (registered e (bus w))"
      "direct (emitted w) (added w w') = map (\<lambda>l. (l, first_arg p)) (take k (registered e (bus w)))"
      "(\<forall>x. r \<noteq> Throws x) \<longrightarrow> k = length (registered e (bus w))"
    by blast
  then show "\<exists>k \<le> length (registered e (bus w)).
          map fst (direct (emitted w) (added w w')) = take k (registered e (bus w)) \<and>
          ((\<forall>x. r \<noteq> Throws x) \<longrightarrow> k = length (registered e (bus w)))"
    by (intro exI[of _ k]) (simp add: comp_def)
  from k(2) show "\<forall>l v. (l, v) \<in> set (direct (emitted w) (added w w')) \<longrightarrow>
          l \<in> set (registered e (bus w))"
    by (auto dest: in_set_takeD)
next
  assume a: "emitAsync e p w = (Some (eid, ls, d), w0) \<and> eid < emitted w1 \<and>
    run_jobs b m eid ls d w1 = Some (rs, w2)"
  from emitAsync_cases[of e p w eid ls d w0] a show "ls = registered e (bus w)" by simp
  from a run_jobs_trace[of b m eid ls d w1 rs w2] obtain new where
    "trace w2 = trace w1 @ new" "direct eid new = map (\<lambda>l. (l, d)) ls"
    by auto
  then show "map fst (direct eid (added w1 w2)) = ls"
    by (simp add: added_def comp_def)
qed

lemma removal_unregisters:
  "(wf_emitter s \<longrightarrow>
      l \<notin> set (registered e (snd (off e l s))) \<and>
      (\<forall>c u l'. scopes s c = Some u \<longrightarrow>
          OnceWrapper c l' \<notin> set (registered e (unsubscribe u s)))) \<and>
   registered e (clear (Some e) s) = [] \<and> registered e (clear None s) = []"
proof (intro conjI impI allI)
  assume wf: "wf_emitter s"
  show "l \<notin> set (registered e (snd (off e l s)))"
  proof (cases "listeners s (String_js e)")
    case None
    then show ?thesis by (simp add: off_absent registered_def)
  next
    case (Some a)
    from wf have "distinct (sets s a)" by (simp add: wf_emitter_def)
    from unsubscribe_removes[OF this, of l "String_js e"]
    have gone: "l \<notin> set (sets (unsubscribe (Unsub a (String_js e) l) s) a)" .
    have "listeners (unsubscribe (Unsub a (String_js e) l) s) (String_js e) = None \<or>
          listeners (unsubscribe (Unsub a (String_js e) l) s) (String_js e) = Some a"
      using Some by (simp add: unsubscribe.simps Let_def)
    with gone show ?thesis
      by (auto simp: off_eq_unsubscribe[OF Some] registered_def)
  qed
  fix c u l'
  assume "scopes s c = Some u"
  from wrapper_gone[OF wf this] show "OnceWrapper c l' \<notin> set (registered e (unsubscribe u s))"
    by (auto simp: registered_def split: option.splits)
next
  show "registered e (clear (Some e) s) = []" by (simp add: registered_def clear_def)
  show "registered e (clear None s) = []" by (simp add: registered_def clear_def)
qed

section \<open>The claims\<close>

text \<open>
  C1. The wrapper registered by \<open>once(e, L)\<close> is to remove itself before it calls \<open>L\<close>, so
  that an emission of \<open>e\<close> made by \<open>L\<close> does not find the wrapper, and \<open>L\<close> is called at most
  once. The code calls \<open>L\<close> first and removes the wrapper in \<^verbatim>\<open>finally\<close>: after
  \<open>once(e, f0)\<close>, where \<open>f0\<close> called with 1 emits \<open>e\<close> with 2, \<open>emit(e, 1)\<close> calls the wrapper
  with 1, the emission made by \<open>f0\<close> snapshots the wrapper and calls it with 2, and \<open>f0\<close> has
  run twice.
\<close>

theorem once_wrapper_registered_while_listener_runs:
  "map_option fst (run reentrant 4 once_then_emit new_world) = Some (Returns Undefined) \<and>
   trace (snd (the (run reentrant 4 once_then_emit new_world))) =
     [Snapshot 0 ''e'' [OnceWrapper 0 (Fn 0)], Invoke 0 (OnceWrapper 0 (Fn 0)) (Num 1),
      Snapshot 1 ''e'' [OnceWrapper 0 (Fn 0)], Invoke 1 (OnceWrapper 0 (Fn 0)) (Num 2)]"
  by (simp add: once_then_emit_def reentrant_def eval_defs numeral_eq_Suc)

text \<open>
  C2. The function returned by \<open>on(e, L)\<close> is claimed to behave like \<open>off(e, L)\<close> in every
  state, later calls being no-ops. It does not: it deletes from the Set object it captured
  and, when that Set is empty, deletes the key, whatever Set the key holds by then.
  After \<open>on(x, f0)\<close>, \<open>clear(x)\<close>, \<open>on(x, f1)\<close> the listener \<open>f1\<close> is registered;
  \<open>off(x, f0)\<close> leaves it so, the unsubscribe function of \<open>f0\<close> removes it. The same
  happens when the unsubscribe function is called a second time after \<open>on(x, f1)\<close>.
\<close>

theorem unsubscribe_captured_set_differs_from_off:
  "(let (u, s1) = on (EStr ''x'') (Fn 0) new_emitter;
        s2 = clear (Some (EStr ''x'')) s1;
        s3 = snd (on (EStr ''x'') (Fn 1) s2)
    in registered (EStr ''x'') s3 = [Fn 1] \<and>
       registered (EStr ''x'') (snd (off (EStr ''x'') (Fn 0) s3)) = [Fn 1] \<and>
       registered (EStr ''x'') (unsubscribe u s3) = []) \<and>
   (let (u, s1) = on (EStr ''x'') (Fn 0) new_emitter;
        s2 = unsubscribe u s1;
        s3 = snd (on (EStr ''x'') (Fn 1) s2)
    in registered (EStr ''x'') s3 = [Fn 1] \<and>
       registered (EStr ''x'') (snd (off (EStr ''x'') (Fn 0) s3)) = [Fn 1] \<and>
       registered (EStr ''x'') (unsubscribe u s3) = [])"
  by (simp add: on_def off_def clear_def unsubscribe.simps new_emitter_def registered_def
      set_add_def set_delete_def Let_def)

text \<open>
  C3. \<open>emitAsync(e, p)\<close>, awaited, never rejects, and it ends whenever the code of its
  listeners does (as it does when they make no \<open>emit\<close> of their own). It calls every
  listener of the snapshot taken at its start, whatever the other listeners did, and when
  every listener settles it resolves with one outcome per listener: \<open>{ok: true, value}\<close> with the value the
  listener returned or its promise fulfilled with, \<open>{ok: false, error}\<close> with what it threw
  or its promise rejected with.
\<close>

theorem emitAsync_never_rejects:
  "((\<forall>l \<in> set (registered e (bus w)). returns b n (first_arg p) l) \<longrightarrow>
      (\<exists>res w'. await_emitAsync b n order e p w = Some (res, w'))) \<and>
   (await_emitAsync b n order e p w = Some (res, w') \<longrightarrow>
      (\<forall>x. res \<noteq> Rejected x) \<and>
      direct (emitted w) (added w w') =
        map (\<lambda>l. (l, first_arg p)) (registered e (bus w)) \<and>
      (\<exists>rs. length rs = length (registered e (bus w)) \<and>
         (\<forall>i < length rs. \<exists>wi wi'.
            call b n (registered e (bus w) ! i) (first_arg p) wi = Some (rs ! i, wi')) \<and>
         (distinct order \<and> set order = {..<length rs} \<and>
          (\<forall>r \<in> set rs. r \<noteq> ReturnsPromise Pending) \<longrightarrow>
            (\<exists>os. res = Fulfilled os \<and> length os = length rs \<and>
               (\<forall>i < length rs.
                  (\<forall>v. rs ! i = Returns v \<or> rs ! i = ReturnsPromise (Fulfilled v) \<longrightarrow>
                       os ! i = Ok v) \<and>
                  (\<forall>x. rs ! i = Throws x \<or> rs ! i = ReturnsPromise (Rejected x) \<longrightarrow>
                       os ! i = Failed x))))))"
  using await_emitAsync_total[of e w b n p order] await_emitAsync_outcomes[of b n order e p w res w']
  by blast

theorem emitAsync_never_rejects_witness:
  "await_emitAsync throw_then_ok 1 [1, 0] (EStr ''x'') [] two_listeners \<noteq> None \<and>
   fst (the (await_emitAsync throw_then_ok 1 [1, 0] (EStr ''x'') [] two_listeners)) =
     Fulfilled [Failed (Str ''boom''), Ok (Str ''ok'')] \<and>
   (\<forall>x. fst (the (await_emitAsync throw_then_ok 1 [1, 0] (EStr ''x'') [] two_listeners))
        \<noteq> Rejected x) \<and>
   direct 0 (added two_listeners
       (snd (the (await_emitAsync throw_then_ok 1 [1, 0] (EStr ''x'') [] two_listeners)))) =
     [(Fn 0, Undefined), (Fn 1, Undefined)]"
proof -
  let ?a = "the (await_emitAsync throw_then_ok 1 [1, 0] (EStr ''x'') [] two_listeners)"
  have a: "await_emitAsync throw_then_ok 1 [1, 0] (EStr ''x'') [] two_listeners
      = Some (fst ?a, snd ?a)"
    by (simp add: await_emitAsync_def emitAsync_def Let_def example_worlds throw_then_ok_def)
  have f: "fst ?a = Fulfilled [Failed (Str ''boom''), Ok (Str ''ok'')]"
    by (simp add: await_emitAsync_def emitAsync_def Let_def example_worlds throw_then_ok_def
        Promise_all_def)
  have r: "registered (EStr ''x'') (bus two_listeners) = [Fn 0, Fn 1]"
    by (simp add: registered_def example_worlds)
  have ret: "\<forall>l \<in> set (registered (EStr ''x'') (bus two_listeners)).
      returns throw_then_ok 1 (first_arg []) l"
    by (simp add: r returns_def throw_then_ok_def)
  note t = emitAsync_never_rejects[of "EStr ''x''" two_listeners throw_then_ok 1 "[]" "[1, 0]"
      "fst ?a" "snd ?a"]
  from t ret have "\<exists>res w'. await_emitAsync throw_then_ok 1 [1, 0] (EStr ''x'') [] two_listeners
      = Some (res, w')"
    by blast
  then have a': "await_emitAsync throw_then_ok 1 [1, 0] (EStr ''x'') [] two_listeners \<noteq> None"
    by (metis option.distinct(1))
  from t a have nr: "\<forall>x. fst ?a \<noteq> Rejected x" by blast
  from t a have "direct (emitted two_listeners) (added two_listeners (snd ?a)) =
      map (\<lambda>l. (l, first_arg [])) (registered (EStr ''x'') (bus two_listeners))"
    by blast
  then have d: "direct 0 (added two_listeners (snd ?a)) = [(Fn 0, Undefined), (Fn 1, Undefined)]"
    unfolding r example_worlds(2) by simp
  from a' f nr d show ?thesis by blast
qed

text \<open>
  C4. Let the listeners of \<open>e\<close> be \<open>pre @ Li # post\<close> in registration order. If, during
  \<open>emit(e, p)\<close>, the listeners of \<open>pre\<close> complete without throwing and \<open>Li\<close> then throws \<open>x\<close>,
  then \<open>emit\<close> throws \<open>x\<close> to its caller in the state that \<open>Li\<close> left, so that no listener of
  \<open>post\<close> is called, and the calls this emission made are those of \<open>pre\<close> and \<open>Li\<close>, once
  each, in order, with the payload.
\<close>

theorem emit_stops_at_first_throw:
  assumes reg: "registered e (bus w) = pre @ Li # post"
    and before: "forEach b n (emitted w) pre (first_arg payload)
        (w\<lparr>emitted := Suc (emitted w),
           trace := trace w @ [Snapshot (emitted w) (String_js e) (pre @ Li # post)]\<rparr>)
        = Some (r1, w1)"
    and ok: "\<forall>x. r1 \<noteq> Throws x"
    and thrown: "call b n Li (first_arg payload)
        (w1\<lparr>trace := trace w1 @ [Invoke (emitted w) Li (first_arg payload)]\<rparr>)
        = Some (Throws x, w2)"
  shows "emit b n e payload w = Some (Throws x, w2) \<and>
         direct (emitted w) (added w w2) = map (\<lambda>l. (l, first_arg payload)) (pre @ [Li])"
proof -
  let ?d = "first_arg payload" and ?m = "emitted w"
  let ?w0 = "w\<lparr>emitted := Suc ?m,
                trace := trace w @ [Snapshot ?m (String_js e) (pre @ Li # post)]\<rparr>"
  from reg obtain a where a: "listeners (bus w) (String_js e) = Some a"
    and s: "sets (bus w) a = pre @ Li # post"
    by (auto simp: registered_def split: option.splits)
  have "emit b n e payload w = forEach b n ?m (pre @ Li # post) ?d ?w0"
    using a s by (simp add: emit.simps Let_def)
  also have "\<dots> = forEach b n ?m (Li # post) ?d w1"
    using forEach_append_ok[OF before ok] .
  also have "\<dots> = Some (Throws x, w2)"
    using thrown by simp
  finally have res: "emit b n e payload w = Some (Throws x, w2)" .
  from forEach_trace[OF before] ok obtain new1 where
    t1: "trace w1 = trace ?w0 @ new1" "direct ?m new1 = map (\<lambda>l. (l, ?d)) pre" "?m < emitted w1"
    by auto
  from call_trace[OF thrown, of ?m] t1(3) obtain new2 where
    t2: "trace w2 = trace w1 @ [Invoke ?m Li ?d] @ new2" "direct ?m new2 = []"
    by auto
  from t1 t2 have "direct ?m (added w w2) = map (\<lambda>l. (l, ?d)) (pre @ [Li])"
    by (simp add: added_def)
  with res show ?thesis by simp
qed

theorem emit_stops_at_first_throw_witness:
  "registered (EStr ''x'') (bus three_listeners) = [Fn 1] @ Fn 0 # [Fn 2] \<and>
   emit failing_first 1 (EStr ''x'') [Num 7] three_listeners =
     Some (Throws (Str ''boom''),
           three_listeners\<lparr>emitted := 1,
             trace := [Snapshot 0 ''x'' [Fn 1, Fn 0, Fn 2], Invoke 0 (Fn 1) (Num 7),
                       Invoke 0 (Fn 0) (Num 7)]\<rparr>) \<and>
   direct 0 (added three_listeners
       (three_listeners\<lparr>emitted := 1,
             trace := [Snapshot 0 ''x'' [Fn 1, Fn 0, Fn 2], Invoke 0 (Fn 1) (Num 7),
                       Invoke 0 (Fn 0) (Num 7)]\<rparr>)) =
     [(Fn 1, Num 7), (Fn 0, Num 7)]"
proof -
  let ?w0 = "three_listeners\<lparr>emitted := Suc (emitted three_listeners),
      trace := trace three_listeners @
        [Snapshot (emitted three_listeners) (String_js (EStr ''x'')) ([Fn 1] @ Fn 0 # [Fn 2])]\<rparr>"
  let ?w1 = "three_listeners\<lparr>emitted := 1,
      trace := [Snapshot 0 ''x'' [Fn 1, Fn 0, Fn 2], Invoke 0 (Fn 1) (Num 7)]\<rparr>"
  let ?w2 = "three_listeners\<lparr>emitted := 1,
      trace := [Snapshot 0 ''x'' [Fn 1, Fn 0, Fn 2], Invoke 0 (Fn 1) (Num 7),
                Invoke 0 (Fn 0) (Num 7)]\<rparr>"
  have r: "registered (EStr ''x'') (bus three_listeners) = [Fn 1] @ Fn 0 # [Fn 2]"
    by (simp add: registered_def example_worlds)
  have f: "forEach failing_first 1 (emitted three_listeners) [Fn 1] (first_arg [Num 7]) ?w0
      = Some (Returns Undefined, ?w1)"
    by (simp add: example_worlds failing_first_def)
  have c: "call failing_first 1 (Fn 0) (first_arg [Num 7])
      (?w1\<lparr>trace := trace ?w1 @ [Invoke (emitted three_listeners) (Fn 0) (first_arg [Num 7])]\<rparr>)
      = Some (Throws (Str ''boom''), ?w2)"
    by (simp add: example_worlds failing_first_def)
  from emit_stops_at_first_throw[OF r f _ c] r show ?thesis
    by (simp add: example_worlds)
qed

text \<open>
  C5. The array that \<open>emitAsync(e, p)\<close> resolves with follows the snapshot: its \<open>i\<close>-th element
  is what the promise of the call of the \<open>i\<close>-th listener of the snapshot fulfilled with,
  in whatever order the promises settle; two orders of settlement give the same array.
  Without a listener set for \<open>e\<close> it resolves with the empty array.
\<close>

theorem emitAsync_result_follows_snapshot:
  assumes "distinct order"
  shows "(listeners (bus w) (String_js e) = None \<longrightarrow>
            await_emitAsync b n order e p w = Some (Fulfilled [], w)) \<and>
         (await_emitAsync b n order e p w = Some (Fulfilled os, w') \<longrightarrow>
            length os = length (registered e (bus w)) \<and>
            (\<exists>rs. length rs = length os \<and>
               (\<forall>i < length os. listener_promise (rs ! i) = Fulfilled (os ! i) \<and>
                  (\<exists>wi wi'. call b n (registered e (bus w) ! i) (first_arg p) wi
                              = Some (rs ! i, wi')))) \<and>
            (\<forall>order2 os2 w2. distinct order2 \<longrightarrow>
               await_emitAsync b n order2 e p w = Some (Fulfilled os2, w2) \<longrightarrow> os2 = os))"
proof (intro conjI impI)
  assume "listeners (bus w) (String_js e) = None"
  then show "await_emitAsync b n order e p w = Some (Fulfilled [], w)"
    by (simp add: await_emitAsync_def emitAsync_def)
next
  assume aw: "await_emitAsync b n order e p w = Some (Fulfilled os, w')"
  from await_emitAsync_cases[OF aw] obtain rs where
    len: "length rs = length (registered e (bus w))" and
    res: "Fulfilled os = Promise_all (map listener_promise rs) order" and
    calls: "\<forall>i < length rs. \<exists>wi wi'.
              call b n (registered e (bus w) ! i) (first_arg p) wi = Some (rs ! i, wi')"
    by blast
  from Promise_all_fulfilled[OF assms res[symmetric]] have
    os: "length os = length rs" "\<forall>j < length rs. listener_promise (rs ! j) = Fulfilled (os ! j)"
    by auto
  from os len show "length os = length (registered e (bus w))" by simp
  from os calls show "\<exists>rs. length rs = length os \<and>
               (\<forall>i < length os. listener_promise (rs ! i) = Fulfilled (os ! i) \<and>
                  (\<exists>wi wi'. call b n (registered e (bus w) ! i) (first_arg p) wi
                              = Some (rs ! i, wi')))"
    by (intro exI[of _ rs]) simp
  show "\<forall>order2 os2 w2. distinct order2 \<longrightarrow>
               await_emitAsync b n order2 e p w = Some (Fulfilled os2, w2) \<longrightarrow> os2 = os"
  proof (intro allI impI)
    fix order2 os2 w2
    assume d2: "distinct order2"
      and aw2: "await_emitAsync b n order2 e p w = Some (Fulfilled os2, w2)"
    have same: "\<exists>rs. Promise_all (map listener_promise rs) order = Fulfilled os \<and>
        Promise_all (map listener_promise rs) order2 = Fulfilled os2"
    proof (cases "listeners (bus w) (String_js e)")
      case None
      with aw aw2 show ?thesis
        by (intro exI[of _ "[]"]) (simp add: await_emitAsync_def emitAsync_def Promise_all_def)
    next
      case (Some a)
      with aw aw2 show ?thesis
        by (fastforce simp: await_emitAsync_def emitAsync_def Let_def split: option.splits)
    qed
    then obtain rs2 where
      r1: "Promise_all (map listener_promise rs2) order = Fulfilled os" and
      r2: "Promise_all (map listener_promise rs2) order2 = Fulfilled os2"
      by metis
    from Promise_all_fulfilled[OF assms r1] Promise_all_fulfilled[OF d2 r2]
    have "length os = length os2"
      "\<forall>j < length os. Fulfilled (os ! j) = (Fulfilled (os2 ! j) :: outcome settlement)"
      by auto
    then show "os2 = os" by (intro nth_equalityI) auto
  qed
qed

theorem emitAsync_result_follows_snapshot_witness:
  "distinct [1, 0 :: nat] \<and>
   listeners (bus new_world) (String_js (EStr ''y'')) = None \<and>
   await_emitAsync throw_then_ok 1 [1, 0] (EStr ''y'') [] new_world =
     Some (Fulfilled [], new_world) \<and>
   map_option fst (await_emitAsync throw_then_ok 1 [1, 0] (EStr ''x'') [] two_listeners) =
     Some (Fulfilled [Failed (Str ''boom''), Ok (Str ''ok'')]) \<and>
   map_option fst (await_emitAsync throw_then_ok 1 [0, 1] (EStr ''x'') [] two_listeners) =
     Some (Fulfilled [Failed (Str ''boom''), Ok (Str ''ok'')]) \<and>
   length [Failed (Str ''boom''), Ok (Str ''ok'')] =
     length (registered (EStr ''x'') (bus two_listeners))"
proof -
  let ?a = "the (await_emitAsync throw_then_ok 1 [1, 0] (EStr ''x'') [] two_listeners)"
  let ?os = "[Failed (Str ''boom''), Ok (Str ''ok'')]"
  have d: "distinct [1, 0 :: nat]" by simp
  have n: "listeners (bus new_world) (String_js (EStr ''y'')) = None"
    by (simp add: new_world_def new_emitter_def)
  have a: "await_emitAsync throw_then_ok 1 [1, 0] (EStr ''x'') [] two_listeners
      = Some (Fulfilled ?os, snd ?a)"
    by (simp add: await_emitAsync_def emitAsync_def Let_def example_worlds throw_then_ok_def
        Promise_all_def)
  have a2: "map_option fst (await_emitAsync throw_then_ok 1 [0, 1] (EStr ''x'') [] two_listeners)
      = Some (Fulfilled ?os)"
    by (simp add: await_emitAsync_def emitAsync_def Let_def example_worlds throw_then_ok_def
        Promise_all_def)
  note t1 = emitAsync_result_follows_snapshot[OF d, of new_world "EStr ''y''" throw_then_ok 1 "[]"]
  note t2 = emitAsync_result_follows_snapshot[OF d, of two_listeners "EStr ''x''"
      throw_then_ok 1 "[]" ?os "snd ?a"]
  from t1 n have c1: "await_emitAsync throw_then_ok 1 [1, 0] (EStr ''y'') [] new_world =
     Some (Fulfilled [], new_world)" by blast
  from t2 a have c2: "length ?os = length (registered (EStr ''x'') (bus two_listeners))"
    by blast
  have a1: "map_option fst
      (await_emitAsync throw_then_ok 1 [1, 0] (EStr ''x'') [] two_listeners) = Some (Fulfilled ?os)"
    by (simp add: await_emitAsync_def emitAsync_def Let_def example_worlds throw_then_ok_def
        Promise_all_def)
  from d n c1 a1 a2 c2 show ?thesis by blast
qed

text \<open>
  C6. The claim says that each emission calls exactly the listeners of the snapshot taken
  at its start. \<open>emit\<close> does not when a listener throws: with \<open>f0\<close>, which throws, and \<open>f1\<close>
  registered for \<open>x\<close>, the emission of \<open>x\<close> calls \<open>f0\<close> only.
\<close>

theorem emit_skips_snapshot_listeners_after_throw:
  "registered (EStr ''x'') (bus two_listeners) = [Fn 0, Fn 1] \<and>
   fst (the (emit failing_first 1 (EStr ''x'') [Num 1] two_listeners)) = Throws (Str ''boom'') \<and>
   map fst (direct 0 (trace (snd (the (emit failing_first 1 (EStr ''x'') [Num 1] two_listeners)))))
     = [Fn 0]"
  by (simp add: emit.simps Let_def registered_def example_worlds failing_first_def)

text \<open>
  C6, amended. Each emission calls only listeners of the snapshot taken at its start, in
  the order of the snapshot, each at most once; so a listener that was removed before the
  emission started, or added during it, is not called by it: \<open>off\<close>, the self-removal of a
  \<open>once\<close> wrapper and \<open>clear\<close> leave the listener out of the listener set. \<open>emitAsync\<close> calls every
  listener of the snapshot, whenever its jobs run; \<open>emit\<close> calls every listener of the
  snapshot unless one throws, and then those up to the one that throws.
\<close>

theorem emission_calls_snapshot_only:
  "(emit b n e p w = Some (r, w') \<longrightarrow>
      (\<exists>k \<le> length (registered e (bus w)).
          map fst (direct (emitted w) (added w w')) = take k (registered e (bus w)) \<and>
          ((\<forall>x. r \<noteq> Throws x) \<longrightarrow> k = length (registered e (bus w)))) \<and>
      (\<forall>l v. (l, v) \<in> set (direct (emitted w) (added w w')) \<longrightarrow>
          l \<in> set (registered e (bus w)))) \<and>
   (emitAsync e p w = (Some (eid, ls, d), w0) \<and> eid < emitted w1 \<and>
    run_jobs b m eid ls d w1 = Some (rs, w2) \<longrightarrow>
      ls = registered e (bus w) \<and> map fst (direct eid (added w1 w2)) = ls) \<and>
   (wf_emitter s \<longrightarrow>
      l \<notin> set (registered e (snd (off e l s))) \<and>
      (\<forall>c u l'. scopes s c = Some u \<longrightarrow>
          OnceWrapper c l' \<notin> set (registered e (unsubscribe u s)))) \<and>
   registered e (clear (Some e) s) = [] \<and> registered e (clear None s) = []"
  using emission_snapshot[of b n e p w r w' eid ls d w0 w1 m rs w2] removal_unregisters[of s l e]
  by blast

theorem emission_calls_snapshot_only_witness:
  "emit quiet 1 (EStr ''x'') [Num 1] two_listeners \<noteq> None \<and>
   map fst (direct 0 (added two_listeners
       (snd (the (emit quiet 1 (EStr ''x'') [Num 1] two_listeners))))) = [Fn 0, Fn 1] \<and>
   fst (emitAsync (EStr ''x'') [Num 1] two_listeners) = Some (0, [Fn 0, Fn 1], Num 1) \<and>
   run_jobs quiet 1 0 [Fn 0, Fn 1] (Num 1) (snd (emitAsync (EStr ''x'') [Num 1] two_listeners))
     \<noteq> None \<and>
   map fst (direct 0 (added (snd (emitAsync (EStr ''x'') [Num 1] two_listeners))
       (snd (the (run_jobs quiet 1 0 [Fn 0, Fn 1] (Num 1)
          (snd (emitAsync (EStr ''x'') [Num 1] two_listeners))))))) = [Fn 0, Fn 1] \<and>
   wf_emitter (bus two_listeners) \<and>
   Fn 0 \<notin> set (registered (EStr ''x'') (snd (off (EStr ''x'') (Fn 0) (bus two_listeners))))"
proof -
  let ?e = "the (emit quiet 1 (EStr ''x'') [Num 1] two_listeners)"
  let ?w0 = "snd (emitAsync (EStr ''x'') [Num 1] two_listeners)"
  let ?j = "the (run_jobs quiet 1 0 [Fn 0, Fn 1] (Num 1) ?w0)"
  have e: "emit quiet 1 (EStr ''x'') [Num 1] two_listeners = Some (fst ?e, snd ?e)"
    by (simp add: emit.simps Let_def example_worlds quiet_def)
  have ok: "\<forall>x. fst ?e \<noteq> Throws x"
    by (simp add: emit.simps Let_def example_worlds quiet_def)
  have a: "emitAsync (EStr ''x'') [Num 1] two_listeners = (Some (0, [Fn 0, Fn 1], Num 1), ?w0)"
    by (simp add: emitAsync_def Let_def example_worlds)
  have lt: "0 < emitted ?w0"
    by (simp add: emitAsync_def Let_def example_worlds)
  have j: "run_jobs quiet 1 0 [Fn 0, Fn 1] (Num 1) ?w0 = Some (fst ?j, snd ?j)"
    by (simp add: emitAsync_def Let_def example_worlds quiet_def)
  have r: "registered (EStr ''x'') (bus two_listeners) = [Fn 0, Fn 1]"
    by (simp add: registered_def example_worlds)
  have s: "steps quiet 0 [Call (On (EStr ''x'') 0), Call (On (EStr ''x'') 1)] new_world
      = Some two_listeners"
    by (simp add: two_listeners_def eval_defs)
  from steps_wf[OF s wf_new_world] have wf: "wf_emitter (bus two_listeners)"
    by (simp add: wf_world_def)
  note t = emission_calls_snapshot_only[of quiet 1 "EStr ''x''" "[Num 1]" two_listeners
      "fst ?e" "snd ?e" 0 "[Fn 0, Fn 1]" "Num 1" ?w0 ?w0 1 "fst ?j" "snd ?j"
      "bus two_listeners" "Fn 0"]
  from t wf have c3: "Fn 0 \<notin> set (registered (EStr ''x'')
      (snd (off (EStr ''x'') (Fn 0) (bus two_listeners))))"
    by blast
  from t e ok have "map fst (direct (emitted two_listeners) (added two_listeners (snd ?e))) =
      registered (EStr ''x'') (bus two_listeners)"
    by auto
  then have c1: "map fst (direct 0 (added two_listeners (snd ?e))) = [Fn 0, Fn 1]"
    unfolding r example_worlds(2) .
  from t a lt j have c2: "map fst (direct 0 (added ?w0 (snd ?j))) = [Fn 0, Fn 1]"
    by blast
  from e have e': "emit quiet 1 (EStr ''x'') [Num 1] two_listeners \<noteq> None"
    by (metis option.distinct(1))
  from j have j': "run_jobs quiet 1 0 [Fn 0, Fn 1] (Num 1) ?w0 \<noteq> None"
    by (metis option.distinct(1))
  from a have a': "fst (emitAsync (EStr ''x'') [Num 1] two_listeners) = Some (0, [Fn 0, Fn 1], Num 1)"
    by (metis fst_conv)
  from e' c1 a' j' c2 wf c3 show ?thesis by blast
qed

text \<open>
  C7. In every state that a program reaches from a new emitter by calls of \<open>on\<close>, \<open>once\<close>,
  \<open>off\<close>, \<open>clear\<close>, \<open>emit\<close>, \<open>emitAsync\<close> and of the returned unsubscribe functions, made
  at top level or by listeners during an emission, the registry maps no key to an empty
  Set: an event without listeners has no entry, \<open>listenerCount\<close> is 0 and
  \<open>hasListeners\<close> is false for it.
\<close>

theorem registry_never_holds_empty_set:
  assumes "steps b n ss new_world = Some w"
  shows "(\<forall>key a. listeners (bus w) key = Some a \<longrightarrow> sets (bus w) a \<noteq> []) \<and>
         (\<forall>e. registered e (bus w) = [] \<longrightarrow>
               listeners (bus w) (String_js e) = None \<and>
               listenerCount e (bus w) = 0 \<and> \<not> hasListeners e (bus w))"
proof -
  from steps_wf[OF assms wf_new_world] have wf: "wf_emitter (bus w)"
    by (simp add: wf_world_def)
  then have ne: "\<forall>key a. listeners (bus w) key = Some a \<longrightarrow> sets (bus w) a \<noteq> []"
    by (simp add: wf_emitter_def)
  then show ?thesis
    by (auto simp: registered_def listenerCount_def hasListeners_def split: option.splits)
qed

theorem registry_never_holds_empty_set_witness:
  "steps quiet 2 unsubscribe_all new_world \<noteq> None \<and>
   listeners (bus (the (steps quiet 2 unsubscribe_all new_world))) ''x'' = None \<and>
   listenerCount (EStr ''x'') (bus (the (steps quiet 2 unsubscribe_all new_world))) = 0"
proof -
  have r: "steps quiet 2 unsubscribe_all new_world = Some (the (steps quiet 2 unsubscribe_all new_world))"
    by (simp add: unsubscribe_all_def quiet_def eval_defs numeral_2_eq_2)
  have e: "registered (EStr ''x'') (bus (the (steps quiet 2 unsubscribe_all new_world))) = []"
    by (simp add: unsubscribe_all_def quiet_def eval_defs numeral_2_eq_2)
  from registry_never_holds_empty_set[OF r] e r show ?thesis by auto
qed







text \<open>
  C10. When \<open>emit(e)\<close> or \<open>emitAsync(e)\<close> is called without a payload, every call that the
  emission makes of a listener passes \<open>undefined\<close> as the payload argument.
\<close>

theorem omitted_payload_is_undefined:
  "(emit b n e [] w = Some (r, w') \<longrightarrow>
      (\<exists>k. direct (emitted w) (added w w') =
            map (\<lambda>l. (l, Undefined)) (take k (registered e (bus w))))) \<and>
   (await_emitAsync b n order e [] w = Some (res, w'') \<longrightarrow>
      direct (emitted w) (added w w'') = map (\<lambda>l. (l, Undefined)) (registered e (bus w)))"
proof (intro conjI impI)
  assume "emit b n e [] w = Some (r, w')"
  from emit_trace[OF this] show "\<exists>k. direct (emitted w) (added w w') =
            map (\<lambda>l. (l, Undefined)) (take k (registered e (bus w)))"
    by auto
next
  assume "await_emitAsync b n order e [] w = Some (res, w'')"
  from await_emitAsync_trace[OF this]
  show "direct (emitted w) (added w w'') = map (\<lambda>l. (l, Undefined)) (registered e (bus w))"
    by simp
qed

theorem omitted_payload_is_undefined_witness:
  "emit quiet 1 (EStr ''x'') [] two_listeners \<noteq> None \<and>
   await_emitAsync quiet 1 [0, 1] (EStr ''x'') [] two_listeners \<noteq> None \<and>
   registered (EStr ''x'') (bus two_listeners) = [Fn 0, Fn 1] \<and>
   (\<exists>k. direct 0 (added two_listeners (snd (the (emit quiet 1 (EStr ''x'') [] two_listeners)))) =
        map (\<lambda>l. (l, Undefined)) (take k [Fn 0, Fn 1])) \<and>
   direct 0 (added two_listeners
       (snd (the (await_emitAsync quiet 1 [0, 1] (EStr ''x'') [] two_listeners)))) =
     [(Fn 0, Undefined), (Fn 1, Undefined)]"
proof -
  let ?e = "the (emit quiet 1 (EStr ''x'') [] two_listeners)"
  let ?a = "the (await_emitAsync quiet 1 [0, 1] (EStr ''x'') [] two_listeners)"
  have e: "emit quiet 1 (EStr ''x'') [] two_listeners = Some (fst ?e, snd ?e)"
    by (simp add: emit.simps example_worlds quiet_def)
  have a: "await_emitAsync quiet 1 [0, 1] (EStr ''x'') [] two_listeners = Some (fst ?a, snd ?a)"
    by (simp add: await_emitAsync_def emitAsync_def Let_def example_worlds quiet_def)
  have r: "registered (EStr ''x'') (bus two_listeners) = [Fn 0, Fn 1]"
    by (simp add: registered_def example_worlds)
  note t = omitted_payload_is_undefined[of quiet 1 "EStr ''x''" two_listeners
      "fst ?e" "snd ?e" "[0, 1]" "fst ?a" "snd ?a"]
  from t e have "\<exists>k. direct (emitted two_listeners) (added two_listeners (snd ?e)) =
      map (\<lambda>l. (l, Undefined)) (take k (registered (EStr ''x'') (bus two_listeners)))"
    by blast
  then have k: "\<exists>k. direct 0 (added two_listeners (snd ?e)) =
      map (\<lambda>l. (l, Undefined)) (take k [Fn 0, Fn 1])"
    unfolding r example_worlds(2) .
  from t a have "direct (emitted two_listeners) (added two_listeners (snd ?a)) =
      map (\<lambda>l. (l, Undefined)) (registered (EStr ''x'') (bus two_listeners))"
    by blast
  then have d: "direct 0 (added two_listeners (snd ?a)) = [(Fn 0, Undefined), (Fn 1, Undefined)]"
    unfolding r example_worlds(2) by simp
  from e have e': "emit quiet 1 (EStr ''x'') [] two_listeners \<noteq> None"
    by (metis option.distinct(1))
  from a have a': "await_emitAsync quiet 1 [0, 1] (EStr ''x'') [] two_listeners \<noteq> None"
    by (metis option.distinct(1))
  from e' a' r k d show ?thesis by blast
qed

end
